theory Spec2Isabelle
  imports Main
begin

section \<open>Data model of the chat relay (main.go)\<close>

text \<open>
  A \<open>*websocket.Conn\<close> is an opaque connection handle and a \<open>*User\<close> is the address of a
  \<open>User\<close> object. The three global maps hold pointers to \<open>User\<close> objects, and a join or a
  leave mutates the object that all of them share, so the objects live in an explicit
  store: \<open>heap\<close> is the list of all \<open>User\<close> objects ever allocated and an address is an
  index into it. \<open>handleSignup\<close> is the only allocation site. A nil pointer, and the result
  of looking up a missing key in a map of pointers, is \<open>None\<close>. A Go pointer that is not nil
  points to an object: \<open>consistent\<close> below holds in every reachable state and says that
  every address the maps hold is allocated, so no handler ever reads \<open>heap\<close> out of range.
\<close>

type_synonym conn = nat
type_synonym addr = nat

record Message =
  Type :: string
  Sender :: string
  Target :: string
  Content :: string
  Room :: string

record User =
  Username :: string
  Password :: string
  Conn :: "conn option"
  Room :: string

text \<open>
  The state: the store, the globals \<open>users\<close>, \<open>clients\<close> and \<open>rooms\<close>, the files the
  history log writes, and two traces of the transport: \<open>sent\<close> lists every \<open>WriteJSON\<close>
  call (connection and event, in call order) and \<open>closed\<close> every \<open>Close\<close> call. \<open>refused\<close>
  belongs to the file system: \<open>refused s f\<close> says that \<open>os.OpenFile\<close> for append fails on
  the name \<open>f\<close> (a name with a missing directory as in room \<open>a/b\<close>, a name too long,
  a file that may not be written). No handler changes it.
\<close>

record state =
  heap :: "User list"
  users :: "string \<rightharpoonup> addr"
  clients :: "conn \<rightharpoonup> addr"
  rooms :: "string \<rightharpoonup> addr list"
  files :: "string \<rightharpoonup> string"
  refused :: "string \<Rightarrow> bool"
  sent :: "(conn \<times> Message) list"
  closed :: "conn list"

text \<open>
  A handler either returns or panics on a nil pointer dereference; both carry the state
  reached, since what was done before a panic is not undone.
\<close>

datatype 'a result = Returned 'a | Panicked 'a

fun state_of :: "'a result \<Rightarrow> 'a" where
  "state_of (Returned s) = s"
| "state_of (Panicked s) = s"

definition init :: state where
  "init = \<lparr>heap = [], users = Map.empty, clients = Map.empty, rooms = Map.empty,
           files = Map.empty, refused = (\<lambda>f. False), sent = [], closed = []\<rparr>"

text \<open>\<open>Message{Type: t, Content: c}\<close>: the other fields are the empty string.\<close>

definition reply :: "string \<Rightarrow> string \<Rightarrow> Message" where
  "reply t c = \<lparr>Type = t, Sender = [], Target = [], Content = c, Message.Room = []\<rparr>"

text \<open>\<open>ws.WriteJSON(m)\<close> where the handler ignores the returned error.\<close>

definition WriteJSON :: "conn \<Rightarrow> Message \<Rightarrow> state \<Rightarrow> state" where
  "WriteJSON ws m s = s\<lparr>sent := sent s @ [(ws, m)]\<rparr>"

section \<open>History log: saveMessageToFile and sendChatHistory\<close>

definition LF :: char where
  "LF = CHR 0x0A"

definition CR :: char where
  "CR = CHR 0x0D"

definition historyFile :: "string \<Rightarrow> string" where
  "historyFile room = ''chat_history_'' @ room @ ''.txt''"

text \<open>\<open>fmt.Sprintf("[%s] %s: %s\n", msg.Room, msg.Sender, msg.Content)\<close>\<close>

definition formatLine :: "Message \<Rightarrow> string" where
  "formatLine msg = ''['' @ Message.Room msg @ ''] '' @ Sender msg @ '': '' @ Content msg @ [LF]"

text \<open>
  \<open>saveMessageToFile\<close> opens the file for append, creating it when absent, and writes one
  formatted line. When the open fails it logs the error and returns: nothing is written.
\<close>

definition saveMessageToFile :: "Message \<Rightarrow> state \<Rightarrow> state" where
  "saveMessageToFile msg s =
     (if refused s (historyFile (Message.Room msg)) then s
      else s\<lparr>files := (files s)(historyFile (Message.Room msg) \<mapsto>
             (case files s (historyFile (Message.Room msg)) of None \<Rightarrow> [] | Some d \<Rightarrow> d)
               @ formatLine msg)\<rparr>)"

text \<open>
  The reader is a \<open>bufio.Scanner\<close> with its default split function \<open>ScanLines\<close> and its
  default buffer limit \<open>MaxScanTokenSize\<close>. A line ends at a line feed; one carriage return
  before it is dropped; the last line needs no line feed when it is not empty. When the
  buffer is full (\<open>MaxScanTokenSize\<close> bytes) and holds no line feed, \<open>Scan\<close> returns false
  with \<open>ErrTooLong\<close>, which \<open>sendChatHistory\<close> only logs: the lines before are all it sent.
\<close>

definition MaxScanTokenSize :: nat where
  "MaxScanTokenSize = 64 * 1024"

definition dropCR :: "string \<Rightarrow> string" where
  "dropCR l = (if l \<noteq> [] \<and> last l = CR then butlast l else l)"

function scanLines :: "string \<Rightarrow> string list" where
  "scanLines data =
     (if data = [] then []
      else if MaxScanTokenSize \<le> length (takeWhile (\<lambda>c. c \<noteq> LF) data) then []
      else if dropWhile (\<lambda>c. c \<noteq> LF) data = [] then [dropCR data]
      else dropCR (takeWhile (\<lambda>c. c \<noteq> LF) data)
             # scanLines (tl (dropWhile (\<lambda>c. c \<noteq> LF) data)))"
  by pat_completeness auto
termination
proof (relation "measure length")
  show "wf (measure length)" by simp
next
  fix data :: string
  assume "dropWhile (\<lambda>c. c \<noteq> LF) data \<noteq> []"
  then have "length (tl (dropWhile (\<lambda>c. c \<noteq> LF) data)) < length (dropWhile (\<lambda>c. c \<noteq> LF) data)"
    by (cases "dropWhile (\<lambda>c. c \<noteq> LF) data") simp_all
  also have "\<dots> \<le> length data" by (rule length_dropWhile_le)
  finally show "(tl (dropWhile (\<lambda>c. c \<noteq> LF) data), data) \<in> measure length" by simp
qed

declare scanLines.simps [simp del]

fun sendLines :: "conn \<Rightarrow> string list \<Rightarrow> state \<Rightarrow> state" where
  "sendLines ws [] s = s"
| "sendLines ws (l # ls) s = sendLines ws ls (WriteJSON ws (reply ''history'' l) s)"

definition sendChatHistory :: "conn \<Rightarrow> string \<Rightarrow> state \<Rightarrow> state" where
  "sendChatHistory ws room s =
     (case files s (historyFile room) of
        None \<Rightarrow> s
      | Some data \<Rightarrow> sendLines ws (scanLines data) s)"

section \<open>Handlers\<close>

definition handleSignup :: "conn \<Rightarrow> Message \<Rightarrow> state \<Rightarrow> state" where
  "handleSignup ws msg s =
     (case users s (Sender msg) of
        Some a \<Rightarrow> WriteJSON ws (reply ''error'' ''Username already exists'') s
      | None \<Rightarrow>
          WriteJSON ws (reply ''info'' ''Signup successful'')
            (s\<lparr>heap := heap s @ [\<lparr>Username = Sender msg, Password = Content msg,
                                    Conn = None, Room = []\<rparr>],
               users := (users s)(Sender msg \<mapsto> length (heap s))\<rparr>))"

definition handleSignin :: "conn \<Rightarrow> Message \<Rightarrow> state \<Rightarrow> state" where
  "handleSignin ws msg s =
     (case users s (Sender msg) of
        None \<Rightarrow> WriteJSON ws (reply ''error'' ''Invalid username or password'') s
      | Some a \<Rightarrow>
          if Password (heap s ! a) \<noteq> Content msg
          then WriteJSON ws (reply ''error'' ''Invalid username or password'') s
          else WriteJSON ws (reply ''info'' ''Signin successful'')
                 (s\<lparr>clients := (clients s)(ws \<mapsto> a)\<rparr>))"

definition handleSignout :: "conn \<Rightarrow> state \<Rightarrow> state" where
  "handleSignout ws s =
     WriteJSON ws (reply ''info'' ''Signout successful'') (s\<lparr>clients := (clients s)(ws := None)\<rparr>)"

definition handleCreateRoom :: "conn \<Rightarrow> Message \<Rightarrow> state \<Rightarrow> state" where
  "handleCreateRoom ws msg s =
     (case rooms s (Content msg) of
        Some room \<Rightarrow> WriteJSON ws (reply ''error'' ''Room already exists'') s
      | None \<Rightarrow>
          WriteJSON ws (reply ''info'' ''Room created successfully'')
            (s\<lparr>rooms := (rooms s)(Content msg \<mapsto> [])\<rparr>))"

text \<open>
  \<open>user := clients[ws]\<close> is nil for a connection that never signed in, and
  \<open>user.Room = msg.Content\<close> then panics.
\<close>

definition handleJoinRoom :: "conn \<Rightarrow> Message \<Rightarrow> state \<Rightarrow> state result" where
  "handleJoinRoom ws msg s =
     (case rooms s (Content msg) of
        None \<Rightarrow> Returned (WriteJSON ws (reply ''error'' ''Room does not exist'') s)
      | Some room \<Rightarrow>
          (case clients s ws of
             None \<Rightarrow> Panicked s
           | Some a \<Rightarrow>
               Returned
                 (WriteJSON ws (reply ''info'' ''Joined room successfully'')
                    (sendChatHistory ws (Content msg)
                       (s\<lparr>heap := (heap s)[a := (heap s ! a)\<lparr>User.Room := Content msg\<rparr>],
                          rooms := (rooms s)(Content msg \<mapsto> room @ [a])\<rparr>)))))"

text \<open>
  The loop of \<open>handleLeaveRoom\<close>: the list without its first entry whose \<open>Username\<close> is
  \<open>name\<close>, and the list itself when there is none (the source then stores nothing).
\<close>

fun removeMember :: "User list \<Rightarrow> string \<Rightarrow> addr list \<Rightarrow> addr list" where
  "removeMember h name [] = []"
| "removeMember h name (u # us) =
     (if Username (h ! u) = name then us else u # removeMember h name us)"

definition handleLeaveRoom :: "conn \<Rightarrow> Message \<Rightarrow> state \<Rightarrow> state result" where
  "handleLeaveRoom ws msg s =
     (case clients s ws of
        None \<Rightarrow> Panicked s
      | Some a \<Rightarrow>
          (case rooms s (User.Room (heap s ! a)) of
             None \<Rightarrow> Returned (WriteJSON ws (reply ''error'' ''You are not in a room'') s)
           | Some room \<Rightarrow>
               Returned
                 (WriteJSON ws (reply ''info'' ''Left room successfully'')
                    (s\<lparr>rooms := (rooms s)(User.Room (heap s ! a) \<mapsto>
                                   removeMember (heap s) (Username (heap s ! a)) room),
                       heap := (heap s)[a := (heap s ! a)\<lparr>User.Room := []\<rparr>]\<rparr>))))"

text \<open>
  The fanout loop of \<open>handleChat\<close>. \<open>dead c\<close> says that a write on connection \<open>c\<close> returns an
  error; the transport decides it, so it is a parameter. \<open>u.Conn.WriteJSON(msg)\<close> on a nil
  \<open>Conn\<close> dereferences it and panics.
\<close>

fun fanout :: "(conn \<Rightarrow> bool) \<Rightarrow> Message \<Rightarrow> addr list \<Rightarrow> state \<Rightarrow> state result" where
  "fanout dead msg [] s = Returned s"
| "fanout dead msg (u # us) s =
     (if Type msg = ''dm'' \<and> Username (heap s ! u) \<noteq> Target msg
           \<and> Username (heap s ! u) \<noteq> Sender msg
      then fanout dead msg us s
      else (case Conn (heap s ! u) of
              None \<Rightarrow> Panicked s
            | Some c \<Rightarrow>
                if dead c
                then fanout dead msg us
                       ((WriteJSON c msg s)\<lparr>closed := c # closed s,
                                            clients := (clients s)(c := None)\<rparr>)
                else fanout dead msg us (WriteJSON c msg s)))"

definition membersOf :: "state \<Rightarrow> string \<Rightarrow> addr list" where
  "membersOf s room = (case rooms s room of None \<Rightarrow> [] | Some us \<Rightarrow> us)"

definition handleChat :: "(conn \<Rightarrow> bool) \<Rightarrow> conn \<Rightarrow> Message \<Rightarrow> state \<Rightarrow> state result" where
  "handleChat dead ws msg s =
     (case clients s ws of
        None \<Rightarrow> Panicked s
      | Some a \<Rightarrow>
          if User.Room (heap s ! a) = []
          then Returned (WriteJSON ws (reply ''error'' ''You are not in a room'') s)
          else (case fanout dead (msg\<lparr>Message.Room := User.Room (heap s ! a)\<rparr>)
                       (membersOf s (User.Room (heap s ! a))) s of
                  Panicked s' \<Rightarrow> Panicked s'
                | Returned s' \<Rightarrow>
                    Returned (saveMessageToFile (msg\<lparr>Message.Room := User.Room (heap s ! a)\<rparr>) s')))"

text \<open>The loop of \<open>handleMessages\<close> (operator console): no \<open>dm\<close> filter.\<close>

fun fanoutAll :: "(conn \<Rightarrow> bool) \<Rightarrow> Message \<Rightarrow> addr list \<Rightarrow> state \<Rightarrow> state result" where
  "fanoutAll dead msg [] s = Returned s"
| "fanoutAll dead msg (u # us) s =
     (case Conn (heap s ! u) of
        None \<Rightarrow> Panicked s
      | Some c \<Rightarrow>
          if dead c
          then fanoutAll dead msg us
                 ((WriteJSON c msg s)\<lparr>closed := c # closed s,
                                      clients := (clients s)(c := None)\<rparr>)
          else fanoutAll dead msg us (WriteJSON c msg s))"

definition handleMessages :: "(conn \<Rightarrow> bool) \<Rightarrow> Message \<Rightarrow> state \<Rightarrow> state result" where
  "handleMessages dead msg s =
     (case fanoutAll dead msg (membersOf s (Message.Room msg)) s of
        Panicked s' \<Rightarrow> Panicked s'
      | Returned s' \<Rightarrow> Returned (saveMessageToFile msg s'))"

section \<open>The connection loop and the reachable states\<close>

text \<open>The \<open>switch msg.Type\<close> of \<open>handleConnections\<close>; an unknown type is ignored.\<close>

definition dispatch :: "(conn \<Rightarrow> bool) \<Rightarrow> conn \<Rightarrow> Message \<Rightarrow> state \<Rightarrow> state result" where
  "dispatch dead ws msg s =
     (if Type msg = ''signup'' then Returned (handleSignup ws msg s)
      else if Type msg = ''signin'' then Returned (handleSignin ws msg s)
      else if Type msg = ''signout'' then Returned (handleSignout ws s)
      else if Type msg = ''create_room'' then Returned (handleCreateRoom ws msg s)
      else if Type msg = ''join_room'' then handleJoinRoom ws msg s
      else if Type msg = ''leave_room'' then handleLeaveRoom ws msg s
      else if Type msg = ''broadcast'' \<or> Type msg = ''dm'' then handleChat dead ws msg s
      else Returned s)"

text \<open>
  What can happen to the server: a connection delivers an event, a connection's read
  fails, or the operator console queues a line. Each is taken as one atomic step (the
  handlers run under the locks). A read error unbinds the connection and the deferred
  \<open>ws.Close()\<close> runs; a panic of a handler ends that connection's loop with the same
  deferred close. \<open>startCLI\<close> skips an empty line and builds the console's event with type
  \<open>broadcast\<close>, sender \<open>server\<close> and an empty room; a panic of \<open>handleMessages\<close> is not
  recovered, and the state it leaves is then the last one. The server starts in \<open>init\<close>, on
  a file system that may refuse any set of names.
\<close>

datatype event = Inbound conn Message | ReadError conn | Console string

definition consoleMessage :: "string \<Rightarrow> Message" where
  "consoleMessage text =
     \<lparr>Type = ''broadcast'', Sender = ''server'', Target = [], Content = text, Message.Room = []\<rparr>"

fun step :: "(conn \<Rightarrow> bool) \<Rightarrow> event \<Rightarrow> state \<Rightarrow> state" where
  "step dead (Inbound ws msg) s =
     (case dispatch dead ws msg s of
        Returned s' \<Rightarrow> s'
      | Panicked s' \<Rightarrow> s'\<lparr>closed := ws # closed s'\<rparr>)"
| "step dead (ReadError ws) s = s\<lparr>clients := (clients s)(ws := None), closed := ws # closed s\<rparr>"
| "step dead (Console text) s =
     (if text = [] then s else state_of (handleMessages dead (consoleMessage text) s))"

fun run :: "(conn \<Rightarrow> bool) \<Rightarrow> event list \<Rightarrow> state \<Rightarrow> state" where
  "run dead [] s = s"
| "run dead (e # es) s = run dead es (step dead e s)"

inductive reachable :: "state \<Rightarrow> bool" where
  reachable_start: "reachable (init\<lparr>refused := R\<rparr>)"
| reachable_step: "reachable s \<Longrightarrow> reachable (step dead e s)"

section \<open>Invariants of the registries\<close>

text \<open>
  \<open>consistent\<close>: every pointer held by a registry is an allocated \<open>User\<close>, every \<open>User\<close>
  is the one the identity store holds for its name, a \<open>User\<close> whose \<open>Room\<close> is not empty is
  in that room's member list, and no \<open>User\<close> holds a connection. \<open>same_registries s s'\<close>:
  \<open>s'\<close> differs from \<open>s\<close> at most by unbound connections and by the transport's traces.
\<close>

definition consistent :: "state \<Rightarrow> bool" where
  "consistent s \<longleftrightarrow>
     (\<forall>u a. users s u = Some a \<longrightarrow> a < length (heap s))
     \<and> (\<forall>a<length (heap s). users s (Username (heap s ! a)) = Some a)
     \<and> (\<forall>ws a. clients s ws = Some a \<longrightarrow> a < length (heap s))
     \<and> (\<forall>a<length (heap s). User.Room (heap s ! a) \<noteq> [] \<longrightarrow>
            a \<in> set (membersOf s (User.Room (heap s ! a))))
     \<and> (\<forall>a<length (heap s). Conn (heap s ! a) = None)
     \<and> (\<forall>r us. rooms s r = Some us \<longrightarrow> (\<forall>u\<in>set us. u < length (heap s)))"

definition same_registries :: "state \<Rightarrow> state \<Rightarrow> bool" where
  "same_registries s s' \<longleftrightarrow>
     heap s' = heap s \<and> users s' = users s \<and> rooms s' = rooms s \<and> files s' = files s
     \<and> (\<forall>ws a. clients s' ws = Some a \<longrightarrow> clients s ws = Some a)"


text \<open>\<open>keeps_credentials s s'\<close>: every identity of \<open>s\<close> is in \<open>s'\<close> with the same password.\<close>

definition keeps_credentials :: "state \<Rightarrow> state \<Rightarrow> bool" where
  "keeps_credentials s s' \<longleftrightarrow>
     (\<forall>u a. users s u = Some a \<longrightarrow>
        users s' u = Some a \<and> Password (heap s' ! a) = Password (heap s ! a))"

section \<open>The delivery set\<close>

text \<open>
  The delivery set as section 4.4 of the specification words it: every member for a
  broadcast; for a \<open>dm\<close> the members whose name is the declared target or the declared
  sender. \<open>pushes\<close> is the list of writes that delivering to it makes, and \<open>failed\<close> the
  connections among them whose write fails.
\<close>

definition selected :: "Message \<Rightarrow> User \<Rightarrow> bool" where
  "selected msg user \<longleftrightarrow>
     Type msg \<noteq> ''dm'' \<or> Username user = Target msg \<or> Username user = Sender msg"

definition deliverySet :: "Message \<Rightarrow> User list \<Rightarrow> addr list \<Rightarrow> addr list" where
  "deliverySet msg h us = filter (\<lambda>u. selected msg (h ! u)) us"

definition pushes :: "Message \<Rightarrow> User list \<Rightarrow> addr list \<Rightarrow> (conn \<times> Message) list" where
  "pushes msg h us = map (\<lambda>u. (the (Conn (h ! u)), msg)) (deliverySet msg h us)"

definition failed :: "(conn \<Rightarrow> bool) \<Rightarrow> Message \<Rightarrow> User list \<Rightarrow> addr list \<Rightarrow> conn set" where
  "failed dead msg h us = {c. dead c \<and> c \<in> fst ` set (pushes msg h us)}"

section \<open>The history log as a sequence of lines\<close>

text \<open>
  \<open>logBytes\<close>: the bytes of a room's log, none when the file does not exist yet.
  \<open>recordLine\<close>: the line of a chat record, without the line feed that ends it.
\<close>

definition logBytes :: "state \<Rightarrow> string \<Rightarrow> string" where
  "logBytes s room = (case files s (historyFile room) of None \<Rightarrow> [] | Some d \<Rightarrow> d)"

definition recordLine :: "Message \<Rightarrow> string" where
  "recordLine msg = ''['' @ Message.Room msg @ ''] '' @ Sender msg @ '': '' @ Content msg"

section \<open>Scenarios\<close>

text \<open>An inbound event as a client sends it: the room field is empty.\<close>

definition message :: "string \<Rightarrow> string \<Rightarrow> string \<Rightarrow> string \<Rightarrow> Message" where
  "message t sender target content =
     \<lparr>Type = t, Sender = sender, Target = target, Content = content, Message.Room = []\<rparr>"

text \<open>Two transports: one on which no write fails, one on which every write to 2 fails.\<close>

definition quiet :: "conn \<Rightarrow> bool" where
  "quiet c = False"


text \<open>Runs of the server from its initial state.\<close>

definition signedIn :: state where
  "signedIn = run quiet
     [Inbound 1 (message ''signup'' ''alice'' [] ''pw''),
      Inbound 1 (message ''signin'' ''alice'' [] ''pw'')] init"

text \<open>What alice does between her signup and a second signup of her name.\<close>

definition between :: "event list" where
  "between =
     [Inbound 1 (message ''signin'' ''alice'' [] ''pw1''),
      Inbound 1 (message ''create_room'' ''alice'' [] ''lobby''),
      Inbound 1 (message ''join_room'' ''alice'' [] ''lobby'')]"

definition lobbyABC :: state where
  "lobbyABC = run quiet
     [Inbound 1 (message ''signup'' ''alice'' [] ''pw1''),
      Inbound 2 (message ''signup'' ''bob'' [] ''pw2''),
      Inbound 3 (message ''signup'' ''carol'' [] ''pw3''),
      Inbound 1 (message ''signin'' ''alice'' [] ''pw1''),
      Inbound 2 (message ''signin'' ''bob'' [] ''pw2''),
      Inbound 3 (message ''signin'' ''carol'' [] ''pw3''),
      Inbound 1 (message ''create_room'' ''alice'' [] ''lobby''),
      Inbound 1 (message ''join_room'' ''alice'' [] ''lobby''),
      Inbound 2 (message ''join_room'' ''bob'' [] ''lobby''),
      Inbound 3 (message ''join_room'' ''carol'' [] ''lobby'')] init"

definition emptyNamed :: state where
  "emptyNamed = run quiet
     [Inbound 1 (message ''signup'' ''alice'' [] ''pw''),
      Inbound 1 (message ''signin'' ''alice'' [] ''pw''),
      Inbound 1 (message ''create_room'' ''alice'' [] []),
      Inbound 1 (message ''join_room'' ''alice'' [] [])] init"

definition twoRooms :: state where
  "twoRooms = run quiet
     [Inbound 1 (message ''signup'' ''alice'' [] ''pw''),
      Inbound 1 (message ''signin'' ''alice'' [] ''pw''),
      Inbound 1 (message ''create_room'' ''alice'' [] ''a''),
      Inbound 1 (message ''create_room'' ''alice'' [] ''b''),
      Inbound 1 (message ''join_room'' ''alice'' [] ''a''),
      Inbound 1 (message ''join_room'' ''alice'' [] ''b'')] init"

text \<open>
  Runs that write the log of \<open>lobby\<close>: alice, alone in the room, sends dms that name
  neither her nor any member, so the fanout pushes to nobody and the event is logged.
\<close>

definition chatted :: state where
  "chatted = run quiet
     [Inbound 1 (message ''signup'' ''alice'' [] ''pw1''),
      Inbound 1 (message ''signin'' ''alice'' [] ''pw1''),
      Inbound 1 (message ''create_room'' ''alice'' [] ''lobby''),
      Inbound 1 (message ''join_room'' ''alice'' [] ''lobby''),
      Inbound 1 (message ''dm'' ''x'' ''y'' ''hi''),
      Inbound 1 (message ''dm'' ''x'' ''y'' ''bye''),
      Inbound 2 (message ''signup'' ''bob'' [] ''pw2''),
      Inbound 2 (message ''signin'' ''bob'' [] ''pw2'')] init"

definition longText :: string where
  "longText = replicate 70000 (CHR ''a'')"

definition longLog :: state where
  "longLog = run quiet
     [Inbound 1 (message ''signup'' ''alice'' [] ''pw1''),
      Inbound 1 (message ''signin'' ''alice'' [] ''pw1''),
      Inbound 1 (message ''create_room'' ''alice'' [] ''lobby''),
      Inbound 1 (message ''join_room'' ''alice'' [] ''lobby''),
      Inbound 1 (message ''dm'' ''x'' ''y'' longText),
      Inbound 2 (message ''signup'' ''bob'' [] ''pw2''),
      Inbound 2 (message ''signin'' ''bob'' [] ''pw2'')] init"

text \<open>Chat records of \<open>lobby\<close>; the content of the last one holds a line feed.\<close>

definition hello :: Message where
  "hello = \<lparr>Type = ''broadcast'', Sender = ''alice'', Target = [], Content = ''hello'',
            Message.Room = ''lobby''\<rparr>"

definition bye :: Message where
  "bye = \<lparr>Type = ''dm'', Sender = ''bob'', Target = ''alice'', Content = ''bye'',
          Message.Room = ''lobby''\<rparr>"

definition twoLines :: Message where
  "twoLines = \<lparr>Type = ''broadcast'', Sender = ''alice'', Target = [],
               Content = ''a'' @ [LF] @ ''b'', Message.Room = ''lobby''\<rparr>"

text \<open>
  A state that no run reaches, since no handler stores a connection in a \<open>User\<close>: three
  members of \<open>lobby\<close>, each holding the connection it is bound to.
\<close>

definition lobby3 :: state where
  "lobby3 =
     \<lparr>heap = [\<lparr>Username = ''alice'', Password = ''pw1'', Conn = Some 1, Room = ''lobby''\<rparr>,
              \<lparr>Username = ''bob'', Password = ''pw2'', Conn = Some 2, Room = ''lobby''\<rparr>,
              \<lparr>Username = ''carol'', Password = ''pw3'', Conn = Some 3, Room = ''lobby''\<rparr>],
      users = [''alice'' \<mapsto> 0, ''bob'' \<mapsto> 1, ''carol'' \<mapsto> 2],
      clients = [1 \<mapsto> 0, 2 \<mapsto> 1, 3 \<mapsto> 2],
      rooms = [''lobby'' \<mapsto> [0, 1, 2]],
      files = Map.empty, refused = (\<lambda>f. False), sent = [], closed = []\<rparr>"

section \<open>Basic facts\<close>

lemma sent_sendLines:
  "sent (sendLines ws ls s) = sent s @ map (\<lambda>l. (ws, reply ''history'' l)) ls"
  by (induction ls arbitrary: s) (simp_all add: WriteJSON_def)

section \<open>The invariant holds in every reachable state\<close>

lemma consistent_users: "consistent s \<Longrightarrow> users s u = Some a \<Longrightarrow> a < length (heap s)"
  by (simp add: consistent_def)

lemma consistent_lookup:
  "consistent s \<Longrightarrow> a < length (heap s) \<Longrightarrow> users s (Username (heap s ! a)) = Some a"
  by (simp add: consistent_def)

lemma consistent_clients: "consistent s \<Longrightarrow> clients s ws = Some a \<Longrightarrow> a < length (heap s)"
  by (simp add: consistent_def)

lemma consistent_member:
  "consistent s \<Longrightarrow> a < length (heap s) \<Longrightarrow> User.Room (heap s ! a) \<noteq> [] \<Longrightarrow>
   a \<in> set (membersOf s (User.Room (heap s ! a)))"
  by (simp add: consistent_def)

lemma consistent_conn: "consistent s \<Longrightarrow> a < length (heap s) \<Longrightarrow> Conn (heap s ! a) = None"
  by (simp add: consistent_def)

lemma consistent_rooms:
  "consistent s \<Longrightarrow> rooms s r = Some us \<Longrightarrow> u \<in> set us \<Longrightarrow> u < length (heap s)"
  by (simp add: consistent_def)

lemma consistentI:
  assumes "\<And>u a. users s u = Some a \<Longrightarrow> a < length (heap s)"
    and "\<And>a. a < length (heap s) \<Longrightarrow> users s (Username (heap s ! a)) = Some a"
    and "\<And>ws a. clients s ws = Some a \<Longrightarrow> a < length (heap s)"
    and "\<And>a. a < length (heap s) \<Longrightarrow> User.Room (heap s ! a) \<noteq> [] \<Longrightarrow>
           a \<in> set (membersOf s (User.Room (heap s ! a)))"
    and "\<And>a. a < length (heap s) \<Longrightarrow> Conn (heap s ! a) = None"
    and "\<And>r us u. rooms s r = Some us \<Longrightarrow> u \<in> set us \<Longrightarrow> u < length (heap s)"
  shows "consistent s"
  using assms unfolding consistent_def by blast

lemma consistent_init: "consistent (init\<lparr>refused := R\<rparr>)"
  by (simp add: consistent_def init_def)

lemma same_registries_refl [simp]: "same_registries s s"
  by (simp add: same_registries_def)

lemma same_registries_trans:
  "same_registries s s' \<Longrightarrow> same_registries s' s'' \<Longrightarrow> same_registries s s''"
  by (simp add: same_registries_def)

lemma consistent_same_registries:
  assumes "consistent s" and "same_registries s s'"
  shows "consistent s'"
proof (rule consistentI)
  from assms(2) have eqs: "heap s' = heap s" "users s' = users s" "rooms s' = rooms s"
    and cl: "\<And>ws a. clients s' ws = Some a \<Longrightarrow> clients s ws = Some a"
    by (simp_all add: same_registries_def)
  have mem: "membersOf s' r = membersOf s r" for r by (simp add: membersOf_def eqs)
  show "a < length (heap s')" if "users s' u = Some a" for u a
    using that consistent_users [OF assms(1)] by (simp add: eqs)
  show "users s' (Username (heap s' ! a)) = Some a" if "a < length (heap s')" for a
    using that consistent_lookup [OF assms(1)] by (simp add: eqs)
  show "a < length (heap s')" if "clients s' ws = Some a" for ws a
    using cl [OF that] consistent_clients [OF assms(1)] by (simp add: eqs)
  show "a \<in> set (membersOf s' (User.Room (heap s' ! a)))"
    if "a < length (heap s')" "User.Room (heap s' ! a) \<noteq> []" for a
    using that consistent_member [OF assms(1)] by (simp add: eqs mem)
  show "Conn (heap s' ! a) = None" if "a < length (heap s')" for a
    using that consistent_conn [OF assms(1)] by (simp add: eqs)
  show "u < length (heap s')" if "rooms s' r = Some us" "u \<in> set us" for r us u
    using that consistent_rooms [OF assms(1), of r us u] by (simp add: eqs)
qed

lemma same_registries_WriteJSON [simp]: "same_registries s (WriteJSON ws m s)"
  by (simp add: same_registries_def WriteJSON_def)

lemma same_registries_sendLines: "same_registries s (sendLines ws ls s)"
proof (induction ls arbitrary: s)
  case Nil
  show ?case by simp
next
  case (Cons l ls)
  have "same_registries s (WriteJSON ws (reply ''history'' l) s)" by simp
  then show ?case using Cons same_registries_trans by fastforce
qed

lemma same_registries_sendChatHistory: "same_registries s (sendChatHistory ws r s)"
  by (simp add: sendChatHistory_def same_registries_sendLines split: option.splits)

lemma same_registries_fanout: "same_registries s (state_of (fanout dead msg us s))"
proof (induction us arbitrary: s)
  case Nil
  show ?case by simp
next
  case (Cons u us)
  have a: "same_registries s (WriteJSON c msg s)" for c by simp
  have b: "same_registries s ((WriteJSON c msg s)\<lparr>closed := c # closed s,
             clients := (clients s)(c := None)\<rparr>)" for c
    by (simp add: same_registries_def WriteJSON_def)
  show ?case
    using same_registries_trans [OF a Cons] same_registries_trans [OF b Cons] Cons
    by (simp split: option.splits)
qed

lemma same_registries_fanoutAll: "same_registries s (state_of (fanoutAll dead msg us s))"
proof (induction us arbitrary: s)
  case Nil
  show ?case by simp
next
  case (Cons u us)
  have a: "same_registries s (WriteJSON c msg s)" for c by simp
  have b: "same_registries s ((WriteJSON c msg s)\<lparr>closed := c # closed s,
             clients := (clients s)(c := None)\<rparr>)" for c
    by (simp add: same_registries_def WriteJSON_def)
  show ?case
    using same_registries_trans [OF a Cons] same_registries_trans [OF b Cons]
    by (simp split: option.splits)
qed

lemma consistent_handleSignup: "consistent s \<Longrightarrow> consistent (handleSignup ws msg s)"
proof (cases "users s (Sender msg)")
  case (Some a)
  assume "consistent s"
  then show ?thesis
    using consistent_same_registries [of s "WriteJSON ws (reply ''error'' ''Username already exists'') s"]
    by (simp add: handleSignup_def Some)
next
  case None
  assume ok: "consistent s"
  let ?s' = "handleSignup ws msg s"
  have eqs: "heap ?s' = heap s @ [\<lparr>Username = Sender msg, Password = Content msg, Conn = None, Room = []\<rparr>]"
    "users ?s' = (users s)(Sender msg \<mapsto> length (heap s))"
    "clients ?s' = clients s" "rooms ?s' = rooms s"
    by (simp_all add: handleSignup_def WriteJSON_def None)
  have mem: "membersOf ?s' r = membersOf s r" for r by (simp add: membersOf_def eqs)
  have fresh: "Username (heap s ! a) \<noteq> Sender msg" if "a < length (heap s)" for a
    using consistent_lookup [OF ok that] None by auto
  show ?thesis
  proof (rule consistentI)
    show "a < length (heap ?s')" if "users ?s' u = Some a" for u a
      using that consistent_users [OF ok, of u a] by (auto simp: eqs split: if_splits)
    show "users ?s' (Username (heap ?s' ! a)) = Some a" if "a < length (heap ?s')" for a
    proof (cases "a < length (heap s)")
      case True
      then show ?thesis using fresh [OF True] consistent_lookup [OF ok True]
        by (simp add: eqs nth_append)
    next
      case False
      with that have "a = length (heap s)" by (simp add: eqs)
      then show ?thesis by (simp add: eqs)
    qed
    show "a < length (heap ?s')" if "clients ?s' ws' = Some a" for ws' a
      using that consistent_clients [OF ok, of ws' a] by (simp add: eqs)
    show "a \<in> set (membersOf ?s' (User.Room (heap ?s' ! a)))"
      if "a < length (heap ?s')" "User.Room (heap ?s' ! a) \<noteq> []" for a
    proof (cases "a < length (heap s)")
      case True
      then show ?thesis using that consistent_member [OF ok True] by (simp add: eqs nth_append mem)
    next
      case False
      with that(1) have "a = length (heap s)" by (simp add: eqs)
      with that(2) show ?thesis by (simp add: eqs)
    qed
    show "Conn (heap ?s' ! a) = None" if "a < length (heap ?s')" for a
    proof (cases "a < length (heap s)")
      case True
      then show ?thesis using consistent_conn [OF ok True] by (simp add: eqs nth_append)
    next
      case False
      with that have "a = length (heap s)" by (simp add: eqs)
      then show ?thesis by (simp add: eqs)
    qed
    show "u < length (heap ?s')" if "rooms ?s' r = Some us" "u \<in> set us" for r us u
      using that consistent_rooms [OF ok, of r us u] by (simp add: eqs)
  qed
qed

lemma consistent_handleSignin: "consistent s \<Longrightarrow> consistent (handleSignin ws msg s)"
proof -
  assume ok: "consistent s"
  have err: "consistent (WriteJSON ws m s)" for m
    using consistent_same_registries [OF ok, of "WriteJSON ws m s"] by simp
  show ?thesis
  proof (cases "users s (Sender msg)")
    case None
    then show ?thesis using err by (simp add: handleSignin_def)
  next
    case (Some a)
    show ?thesis
    proof (cases "Password (heap s ! a) = Content msg")
      case False
      then show ?thesis using err Some by (simp add: handleSignin_def)
    next
      case True
      let ?s' = "handleSignin ws msg s"
      have eqs: "heap ?s' = heap s" "users ?s' = users s" "rooms ?s' = rooms s"
        "clients ?s' = (clients s)(ws \<mapsto> a)"
        by (simp_all add: handleSignin_def WriteJSON_def Some True)
      have mem: "membersOf ?s' r = membersOf s r" for r by (simp add: membersOf_def eqs)
      show ?thesis
      proof (rule consistentI)
        show "b < length (heap ?s')" if "users ?s' u = Some b" for u b
          using that consistent_users [OF ok, of u b] by (simp add: eqs)
        show "users ?s' (Username (heap ?s' ! b)) = Some b" if "b < length (heap ?s')" for b
          using that consistent_lookup [OF ok, of b] by (simp add: eqs)
        show "b < length (heap ?s')" if "clients ?s' ws' = Some b" for ws' b
          using that consistent_clients [OF ok, of ws' b] consistent_users [OF ok Some]
          by (auto simp: eqs split: if_splits)
        show "b \<in> set (membersOf ?s' (User.Room (heap ?s' ! b)))"
          if "b < length (heap ?s')" "User.Room (heap ?s' ! b) \<noteq> []" for b
          using that consistent_member [OF ok, of b] by (simp add: eqs mem)
        show "Conn (heap ?s' ! b) = None" if "b < length (heap ?s')" for b
          using that consistent_conn [OF ok, of b] by (simp add: eqs)
        show "u < length (heap ?s')" if "rooms ?s' r = Some us" "u \<in> set us" for r us u
          using that consistent_rooms [OF ok, of r us u] by (simp add: eqs)
      qed
    qed
  qed
qed

lemma consistent_handleSignout: "consistent s \<Longrightarrow> consistent (handleSignout ws s)"
  by (erule consistent_same_registries) (simp add: handleSignout_def same_registries_def WriteJSON_def)

lemma consistent_handleCreateRoom: "consistent s \<Longrightarrow> consistent (handleCreateRoom ws msg s)"
proof (cases "rooms s (Content msg)")
  case (Some room)
  assume "consistent s"
  then show ?thesis
    using consistent_same_registries [of s "WriteJSON ws (reply ''error'' ''Room already exists'') s"]
    by (simp add: handleCreateRoom_def Some)
next
  case None
  assume ok: "consistent s"
  let ?s' = "handleCreateRoom ws msg s"
  have eqs: "heap ?s' = heap s" "users ?s' = users s" "clients ?s' = clients s"
    "rooms ?s' = (rooms s)(Content msg \<mapsto> [])"
    by (simp_all add: handleCreateRoom_def WriteJSON_def None)
  show ?thesis
  proof (rule consistentI)
    show "b < length (heap ?s')" if "users ?s' u = Some b" for u b
      using that consistent_users [OF ok, of u b] by (simp add: eqs)
    show "users ?s' (Username (heap ?s' ! b)) = Some b" if "b < length (heap ?s')" for b
      using that consistent_lookup [OF ok, of b] by (simp add: eqs)
    show "b < length (heap ?s')" if "clients ?s' ws' = Some b" for ws' b
      using that consistent_clients [OF ok, of ws' b] by (simp add: eqs)
    show "b \<in> set (membersOf ?s' (User.Room (heap ?s' ! b)))"
      if "b < length (heap ?s')" "User.Room (heap ?s' ! b) \<noteq> []" for b
    proof -
      from that have m: "b \<in> set (membersOf s (User.Room (heap s ! b)))"
        using consistent_member [OF ok, of b] by (simp add: eqs)
      then have "User.Room (heap s ! b) \<noteq> Content msg"
        using None by (auto simp: membersOf_def)
      with m show ?thesis by (simp add: membersOf_def eqs)
    qed
    show "Conn (heap ?s' ! b) = None" if "b < length (heap ?s')" for b
      using that consistent_conn [OF ok, of b] by (simp add: eqs)
    show "u < length (heap ?s')" if "rooms ?s' r = Some us" "u \<in> set us" for r us u
      using that consistent_rooms [OF ok, of r us u] by (auto simp: eqs split: if_splits)
  qed
qed

lemma removeMember_keeps:
  "b \<in> set us \<Longrightarrow> Username (h ! b) \<noteq> name \<Longrightarrow> b \<in> set (removeMember h name us)"
  by (induction us) auto

lemma removeMember_subset: "set (removeMember h name us) \<subseteq> set us"
  by (induction us) auto

lemma consistent_handleJoinRoom:
  "consistent s \<Longrightarrow> consistent (state_of (handleJoinRoom ws msg s))"
proof -
  assume ok: "consistent s"
  show ?thesis
  proof (cases "rooms s (Content msg)")
    case None
    then show ?thesis
      using consistent_same_registries [OF ok, of "WriteJSON ws (reply ''error'' ''Room does not exist'') s"]
      by (simp add: handleJoinRoom_def)
  next
    case (Some room)
    show ?thesis
    proof (cases "clients s ws")
      case None
      then show ?thesis using ok Some by (simp add: handleJoinRoom_def)
    next
      case a: (Some a)
      let ?c = "Content msg"
      let ?m = "s\<lparr>heap := (heap s)[a := (heap s ! a)\<lparr>User.Room := ?c\<rparr>],
                  rooms := (rooms s)(?c \<mapsto> room @ [a])\<rparr>"
      have lt: "a < length (heap s)" by (rule consistent_clients [OF ok a])
      have "consistent ?m"
      proof (rule consistentI)
        show "b < length (heap ?m)" if "users ?m u = Some b" for u b
          using that consistent_users [OF ok, of u b] by simp
        show "users ?m (Username (heap ?m ! b)) = Some b" if "b < length (heap ?m)" for b
          using that consistent_lookup [OF ok, of b] by (cases "a = b") simp_all
        show "b < length (heap ?m)" if "clients ?m ws' = Some b" for ws' b
          using that consistent_clients [OF ok, of ws' b] by simp
        show "b \<in> set (membersOf ?m (User.Room (heap ?m ! b)))"
          if "b < length (heap ?m)" "User.Room (heap ?m ! b) \<noteq> []" for b
        proof (cases "b = a")
          case True
          then show ?thesis using lt by (simp add: membersOf_def)
        next
          case False
          with that have "b \<in> set (membersOf s (User.Room (heap s ! b)))"
            using consistent_member [OF ok, of b] by simp
          then show ?thesis using False Some by (auto simp: membersOf_def)
        qed
        show "Conn (heap ?m ! b) = None" if "b < length (heap ?m)" for b
          using that consistent_conn [OF ok, of b] by (cases "a = b") simp_all
        show "u < length (heap ?m)" if "rooms ?m r = Some us" "u \<in> set us" for r us u
          using that consistent_rooms [OF ok, of r us u] consistent_rooms [OF ok Some, of u] lt
          by (auto split: if_splits)
      qed
      moreover have "same_registries ?m (WriteJSON ws (reply ''info'' ''Joined room successfully'')
                        (sendChatHistory ws ?c ?m))"
        using same_registries_trans [OF same_registries_sendChatHistory same_registries_WriteJSON] .
      ultimately show ?thesis
        using consistent_same_registries by (simp add: handleJoinRoom_def Some a)
    qed
  qed
qed

lemma consistent_handleLeaveRoom:
  "consistent s \<Longrightarrow> consistent (state_of (handleLeaveRoom ws msg s))"
proof -
  assume ok: "consistent s"
  show ?thesis
  proof (cases "clients s ws")
    case None
    then show ?thesis using ok by (simp add: handleLeaveRoom_def)
  next
    case a: (Some a)
    have lt: "a < length (heap s)" by (rule consistent_clients [OF ok a])
    let ?r = "User.Room (heap s ! a)"
    show ?thesis
    proof (cases "rooms s ?r")
      case None
      then show ?thesis
        using consistent_same_registries [OF ok, of "WriteJSON ws (reply ''error'' ''You are not in a room'') s"]
        by (simp add: handleLeaveRoom_def a)
    next
      case (Some room)
      let ?m = "s\<lparr>rooms := (rooms s)(?r \<mapsto> removeMember (heap s) (Username (heap s ! a)) room),
                  heap := (heap s)[a := (heap s ! a)\<lparr>User.Room := []\<rparr>]\<rparr>"
      have "consistent ?m"
      proof (rule consistentI)
        show "b < length (heap ?m)" if "users ?m u = Some b" for u b
          using that consistent_users [OF ok, of u b] by simp
        show "users ?m (Username (heap ?m ! b)) = Some b" if "b < length (heap ?m)" for b
          using that consistent_lookup [OF ok, of b] by (cases "a = b") simp_all
        show "b < length (heap ?m)" if "clients ?m ws' = Some b" for ws' b
          using that consistent_clients [OF ok, of ws' b] by simp
        show "b \<in> set (membersOf ?m (User.Room (heap ?m ! b)))"
          if "b < length (heap ?m)" "User.Room (heap ?m ! b) \<noteq> []" for b
        proof (cases "b = a")
          case True
          then show ?thesis using that lt by simp
        next
          case False
          from that have bl: "b < length (heap s)" by simp
          from that False have m: "b \<in> set (membersOf s (User.Room (heap s ! b)))"
            using consistent_member [OF ok, of b] by simp
          have "Username (heap s ! b) \<noteq> Username (heap s ! a)"
            using consistent_lookup [OF ok bl] consistent_lookup [OF ok lt] False by auto
          then show ?thesis
            using m False Some removeMember_keeps [of b room "heap s" "Username (heap s ! a)"]
            by (auto simp: membersOf_def)
        qed
        show "Conn (heap ?m ! b) = None" if "b < length (heap ?m)" for b
          using that consistent_conn [OF ok, of b] by (cases "a = b") simp_all
        show "u < length (heap ?m)" if "rooms ?m r = Some us" "u \<in> set us" for r us u
          using that consistent_rooms [OF ok, of r us u] consistent_rooms [OF ok Some, of u]
            removeMember_subset [of "heap s" "Username (heap s ! a)" room]
          by (auto split: if_splits)
      qed
      moreover have "same_registries ?m (WriteJSON ws (reply ''info'' ''Left room successfully'') ?m)"
        by (rule same_registries_WriteJSON)
      ultimately show ?thesis
        using consistent_same_registries by (simp add: handleLeaveRoom_def Some a)
    qed
  qed
qed

lemma same_registries_saveMessageToFile:
  "same_registries s s' \<Longrightarrow> consistent s \<Longrightarrow> consistent (saveMessageToFile m s')"
proof -
  assume sr: "same_registries s s'" and ok: "consistent s"
  have ok': "consistent s'" by (rule consistent_same_registries [OF ok sr])
  have "heap (saveMessageToFile m s') = heap s'" "users (saveMessageToFile m s') = users s'"
    "rooms (saveMessageToFile m s') = rooms s'" "clients (saveMessageToFile m s') = clients s'"
    by (simp_all add: saveMessageToFile_def)
  then show ?thesis using ok' by (simp add: consistent_def membersOf_def)
qed

lemma consistent_handleChat:
  "consistent s \<Longrightarrow> consistent (state_of (handleChat dead ws msg s))"
proof -
  assume ok: "consistent s"
  show ?thesis
  proof (cases "clients s ws")
    case None
    then show ?thesis using ok by (simp add: handleChat_def)
  next
    case (Some a)
    show ?thesis
    proof (cases "User.Room (heap s ! a) = []")
      case True
      then show ?thesis
        using consistent_same_registries [OF ok, of "WriteJSON ws (reply ''error'' ''You are not in a room'') s"]
        by (simp add: handleChat_def Some)
    next
      case False
      let ?msg = "msg\<lparr>Message.Room := User.Room (heap s ! a)\<rparr>"
      let ?f = "fanout dead ?msg (membersOf s (User.Room (heap s ! a))) s"
      have sr: "same_registries s (state_of ?f)" by (rule same_registries_fanout)
      show ?thesis
      proof (cases ?f)
        case (Returned s')
        then show ?thesis
          using same_registries_saveMessageToFile [OF _ ok, of s' ?msg] sr
          by (simp add: handleChat_def Some False)
      next
        case (Panicked s')
        then show ?thesis
          using consistent_same_registries [OF ok, of s'] sr
          by (simp add: handleChat_def Some False)
      qed
    qed
  qed
qed

lemma consistent_handleMessages:
  "consistent s \<Longrightarrow> consistent (state_of (handleMessages dead msg s))"
proof -
  assume ok: "consistent s"
  let ?f = "fanoutAll dead msg (membersOf s (Message.Room msg)) s"
  have sr: "same_registries s (state_of ?f)" by (rule same_registries_fanoutAll)
  show ?thesis
  proof (cases ?f)
    case (Returned s')
    then show ?thesis
      using same_registries_saveMessageToFile [OF _ ok, of s' msg] sr
      by (simp add: handleMessages_def)
  next
    case (Panicked s')
    then show ?thesis
      using consistent_same_registries [OF ok, of s'] sr
      by (simp add: handleMessages_def)
  qed
qed

lemma consistent_closed: "consistent s \<Longrightarrow> consistent (s\<lparr>closed := cs\<rparr>)"
  by (erule consistent_same_registries) (simp add: same_registries_def)

lemma consistent_dispatch: "consistent s \<Longrightarrow> consistent (state_of (dispatch dead ws msg s))"
  by (simp add: dispatch_def consistent_handleSignup consistent_handleSignin
      consistent_handleSignout consistent_handleCreateRoom consistent_handleJoinRoom
      consistent_handleLeaveRoom consistent_handleChat)

lemma consistent_step: "consistent s \<Longrightarrow> consistent (step dead e s)"
proof (cases e)
  case (Inbound ws msg)
  assume ok: "consistent s"
  show ?thesis
    using consistent_dispatch [OF ok, of dead ws msg] consistent_closed
    by (cases "dispatch dead ws msg s") (simp_all add: Inbound)
next
  case (ReadError ws)
  assume "consistent s"
  then show ?thesis
    by (rule consistent_same_registries) (simp add: ReadError same_registries_def)
next
  case (Console line)
  assume "consistent s"
  then show ?thesis by (simp add: Console consistent_handleMessages)
qed

lemma reachable_consistent: "reachable s \<Longrightarrow> consistent s"
  by (induction rule: reachable.induct) (simp_all add: consistent_init consistent_step)

lemma reachable_init: "reachable init"
  using reachable_start [of "\<lambda>f. False"] by (simp add: init_def)

lemma reachable_run: "reachable s \<Longrightarrow> reachable (run dead es s)"
  by (induction es arbitrary: s) (simp_all add: reachable_step)

section \<open>The fanout loop\<close>

lemma fanout_skip:
  "\<not> selected msg (heap s ! u) \<Longrightarrow> fanout dead msg (u # us) s = fanout dead msg us s"
  by (simp add: selected_def)

lemma fanout_push:
  "selected msg (heap s ! u) \<Longrightarrow> Conn (heap s ! u) = Some c \<Longrightarrow>
   fanout dead msg (u # us) s
     = fanout dead msg us
         (if dead c
          then (WriteJSON c msg s)\<lparr>closed := c # closed s, clients := (clients s)(c := None)\<rparr>
          else WriteJSON c msg s)"
  by (auto simp: selected_def)

lemma fanout_nil:
  "selected msg (heap s ! u) \<Longrightarrow> Conn (heap s ! u) = None \<Longrightarrow>
   fanout dead msg (u # us) s = Panicked s"
  by (auto simp: selected_def)

declare fanout.simps(2) [simp del]

lemma heap_fanout [simp]: "heap (state_of (fanout dead msg us s)) = heap s"
  using same_registries_fanout [of s dead msg us] by (simp add: same_registries_def)

lemma rooms_fanout [simp]: "rooms (state_of (fanout dead msg us s)) = rooms s"
  using same_registries_fanout [of s dead msg us] by (simp add: same_registries_def)

lemma users_fanout [simp]: "users (state_of (fanout dead msg us s)) = users s"
  using same_registries_fanout [of s dead msg us] by (simp add: same_registries_def)

lemma files_fanout [simp]: "files (state_of (fanout dead msg us s)) = files s"
  using same_registries_fanout [of s dead msg us] by (simp add: same_registries_def)

text \<open>
  When every selected member holds a connection the loop runs to its end, whatever the
  transport does: it pushes to the selected members in list order, and closes and unbinds
  exactly the connections whose push failed.
\<close>

lemma fanout_effect:
  "\<forall>u\<in>set (deliverySet msg (heap s) us). Conn (heap s ! u) \<noteq> None \<Longrightarrow>
   fanout dead msg us s = Returned (state_of (fanout dead msg us s))
   \<and> sent (state_of (fanout dead msg us s)) = sent s @ pushes msg (heap s) us
   \<and> clients (state_of (fanout dead msg us s))
       = (\<lambda>c. if c \<in> failed dead msg (heap s) us then None else clients s c)
   \<and> set (closed (state_of (fanout dead msg us s)))
       = set (closed s) \<union> failed dead msg (heap s) us"
proof (induction us arbitrary: s)
  case Nil
  show ?case by (simp add: failed_def pushes_def deliverySet_def)
next
  case (Cons u us)
  show ?case
  proof (cases "selected msg (heap s ! u)")
    case False
    with Cons.prems have "\<forall>u\<in>set (deliverySet msg (heap s) us). Conn (heap s ! u) \<noteq> None"
      by (simp add: deliverySet_def)
    from Cons.IH [OF this] False show ?thesis
      by (simp add: fanout_skip failed_def pushes_def deliverySet_def)
  next
    case True
    with Cons.prems obtain d where d: "Conn (heap s ! u) = Some d"
      and rest: "\<forall>u\<in>set (deliverySet msg (heap s) us). Conn (heap s ! u) \<noteq> None"
      by (auto simp: deliverySet_def)
    let ?s1 = "if dead d
          then (WriteJSON d msg s)\<lparr>closed := d # closed s, clients := (clients s)(d := None)\<rparr>
          else WriteJSON d msg s"
    have h: "heap ?s1 = heap s" "sent ?s1 = sent s @ [(d, msg)]"
      "clients ?s1 = (if dead d then (clients s)(d := None) else clients s)"
      "closed ?s1 = (if dead d then d # closed s else closed s)"
      by (simp_all add: WriteJSON_def)
    have p: "pushes msg (heap s) (u # us) = (d, msg) # pushes msg (heap s) us"
      using True d by (simp add: pushes_def deliverySet_def)
    have f: "failed dead msg (heap s) (u # us)
               = (if dead d then insert d (failed dead msg (heap s) us) else failed dead msg (heap s) us)"
      by (auto simp: failed_def p)
    from rest have "\<forall>u\<in>set (deliverySet msg (heap ?s1) us). Conn (heap ?s1 ! u) \<noteq> None"
      by (simp only: h)
    from Cons.IH [OF this] show ?thesis
      unfolding fanout_push [OF True d] h p f by (auto simp: fun_eq_iff)
  qed
qed

lemma fanout_nil_conns:
  "\<forall>u\<in>set us. Conn (heap s ! u) = None \<Longrightarrow>
   fanout dead msg us s = (if deliverySet msg (heap s) us = [] then Returned s else Panicked s)"
proof (induction us)
  case Nil
  show ?case by (simp add: deliverySet_def)
next
  case (Cons u us)
  then show ?case
    by (cases "selected msg (heap s ! u)") (simp_all add: fanout_skip fanout_nil deliverySet_def)
qed

section \<open>Facts about the scenarios and about handleChat\<close>

lemmas handler_defs = dispatch_def handleSignup_def handleSignin_def handleSignout_def
  handleCreateRoom_def handleJoinRoom_def handleLeaveRoom_def handleChat_def
  sendChatHistory_def WriteJSON_def message_def reply_def init_def membersOf_def
  saveMessageToFile_def

lemma lobbyABC_facts:
  "clients lobbyABC 1 = Some 0" "User.Room (heap lobbyABC ! 0) = ''lobby''"
  "rooms lobbyABC ''lobby'' = Some [0, 1, 2]"
  "map Username (heap lobbyABC) = [''alice'', ''bob'', ''carol'']"
  by (simp_all add: lobbyABC_def handler_defs)

lemma lobby3_facts:
  "clients lobby3 1 = Some 0" "clients lobby3 3 = Some 2"
  "User.Room (heap lobby3 ! 0) = ''lobby''" "User.Room (heap lobby3 ! 2) = ''lobby''"
  "membersOf lobby3 ''lobby'' = [0, 1, 2]"
  "Conn (heap lobby3 ! 0) = Some 1" "Conn (heap lobby3 ! 1) = Some 2"
  "Conn (heap lobby3 ! 2) = Some 3"
  "Username (heap lobby3 ! 0) = ''alice''" "Username (heap lobby3 ! 1) = ''bob''"
  "Username (heap lobby3 ! 2) = ''carol''"
  "sent lobby3 = []" "rooms lobby3 ''lobby'' = Some [0, 1, 2]"
  by (simp_all add: lobby3_def membersOf_def)

lemma handleChat_in_room:
  "clients s ws = Some a \<Longrightarrow> User.Room (heap s ! a) = r \<Longrightarrow> r \<noteq> [] \<Longrightarrow>
   handleChat dead ws msg s
     = (case fanout dead (msg\<lparr>Message.Room := r\<rparr>) (membersOf s r) s of
          Panicked s' \<Rightarrow> Panicked s'
        | Returned s' \<Rightarrow> Returned (saveMessageToFile (msg\<lparr>Message.Room := r\<rparr>) s'))"
  by (auto simp: handleChat_def)

lemma handleChat_fanout:
  assumes "clients s ws = Some a" and "User.Room (heap s ! a) = r" and "r \<noteq> []"
    and "\<forall>u\<in>set (deliverySet (msg\<lparr>Message.Room := r\<rparr>) (heap s) (membersOf s r)).
           Conn (heap s ! u) \<noteq> None"
  shows "handleChat dead ws msg s
           = Returned (saveMessageToFile (msg\<lparr>Message.Room := r\<rparr>)
               (state_of (fanout dead (msg\<lparr>Message.Room := r\<rparr>) (membersOf s r) s)))"
proof -
  from fanout_effect [OF assms(4), of dead]
  have "fanout dead (msg\<lparr>Message.Room := r\<rparr>) (membersOf s r) s
          = Returned (state_of (fanout dead (msg\<lparr>Message.Room := r\<rparr>) (membersOf s r) s))"
    by simp
  then show ?thesis
    using assms(1,2,3) by (auto simp: handleChat_def split: result.splits)
qed

lemma leave_not_in_room:
  assumes "clients s ws = Some a" and "User.Room (heap s ! a) = []" and "rooms s [] = None"
  shows "handleLeaveRoom ws msg s
           = Returned (WriteJSON ws (reply ''error'' ''You are not in a room'') s)"
  using assms by (simp add: handleLeaveRoom_def)

section \<open>The reader and the log\<close>

lemma formatLine_recordLine: "formatLine msg = recordLine msg @ [LF]"
  by (simp add: formatLine_def recordLine_def)

lemma scanLines_Nil [simp]: "scanLines [] = []"
  by (simp add: scanLines.simps)

lemma no_LF: "LF \<notin> set l \<Longrightarrow> x \<in> set l \<Longrightarrow> x \<noteq> LF"
  by auto

lemma takeWhile_no_LF:
  "LF \<notin> set l \<Longrightarrow> takeWhile (\<lambda>c. c \<noteq> LF) (l @ rest) = l @ takeWhile (\<lambda>c. c \<noteq> LF) rest"
  by (rule takeWhile_append2) (rule no_LF)

lemma dropWhile_no_LF:
  "LF \<notin> set l \<Longrightarrow> dropWhile (\<lambda>c. c \<noteq> LF) (l @ rest) = dropWhile (\<lambda>c. c \<noteq> LF) rest"
  by (rule dropWhile_append2) (rule no_LF)

lemma scanLines_line:
  assumes "LF \<notin> set l" and "length l < MaxScanTokenSize"
  shows "scanLines (l @ LF # rest) = dropCR l # scanLines rest"
proof -
  have t: "takeWhile (\<lambda>c. c \<noteq> LF) (l @ LF # rest) = l"
    using assms(1) by (simp add: takeWhile_no_LF)
  have d: "dropWhile (\<lambda>c. c \<noteq> LF) (l @ LF # rest) = LF # rest"
    using assms(1) by (simp add: dropWhile_no_LF)
  show ?thesis
    using assms(2) by (subst scanLines.simps) (simp add: t d)
qed

lemma scanLines_last:
  assumes "LF \<notin> set l" and "length l < MaxScanTokenSize" and "l \<noteq> []"
  shows "scanLines l = [dropCR l]"
proof -
  have t: "takeWhile (\<lambda>c. c \<noteq> LF) l = l"
    using takeWhile_no_LF [OF assms(1), of "[]"] by simp
  have d: "dropWhile (\<lambda>c. c \<noteq> LF) l = []"
    using dropWhile_no_LF [OF assms(1), of "[]"] by simp
  show ?thesis
    using assms(2,3) by (subst scanLines.simps) (simp add: t d)
qed

lemma scanLines_too_long:
  assumes "LF \<notin> set l" and "MaxScanTokenSize \<le> length l"
  shows "scanLines (l @ rest) = []"
proof -
  have "takeWhile (\<lambda>c. c \<noteq> LF) (l @ rest) = l @ takeWhile (\<lambda>c. c \<noteq> LF) rest"
    using assms(1) by (rule takeWhile_no_LF)
  then have "MaxScanTokenSize \<le> length (takeWhile (\<lambda>c. c \<noteq> LF) (l @ rest))"
    using assms(2) by simp
  then show ?thesis by (subst scanLines.simps) simp
qed

lemma dropCR_id: "l = [] \<or> last l \<noteq> CR \<Longrightarrow> dropCR l = l"
  by (auto simp: dropCR_def)

lemma scanLines_lines:
  "\<forall>l\<in>set ls. LF \<notin> set l \<and> length l < MaxScanTokenSize \<and> (l = [] \<or> last l \<noteq> CR) \<Longrightarrow>
   scanLines (concat (map (\<lambda>l. l @ [LF]) ls)) = ls"
proof (induction ls)
  case Nil
  show ?case by simp
next
  case (Cons l ls)
  then have l: "LF \<notin> set l" "length l < MaxScanTokenSize" "l = [] \<or> last l \<noteq> CR"
    and rest: "scanLines (concat (map (\<lambda>l. l @ [LF]) ls)) = ls"
    by simp_all
  show ?case
    using scanLines_line [OF l(1,2)] dropCR_id [OF l(3)] rest by simp
qed

lemma sendChatHistory_logBytes:
  "sendChatHistory ws room s = sendLines ws (scanLines (logBytes s room)) s"
  by (simp add: sendChatHistory_def logBytes_def split: option.splits)

lemma handleJoinRoom_sent:
  assumes "rooms s (Content msg) = Some room" and "clients s ws = Some a"
  shows "handleJoinRoom ws msg s = Returned (state_of (handleJoinRoom ws msg s))
       \<and> sent (state_of (handleJoinRoom ws msg s))
           = sent s @ map (\<lambda>l. (ws, reply ''history'' l)) (scanLines (logBytes s (Content msg)))
               @ [(ws, reply ''info'' ''Joined room successfully'')]"
  using assms
  by (simp add: handleJoinRoom_def sendChatHistory_logBytes sent_sendLines WriteJSON_def logBytes_def)

lemma sent_saveMessageToFile [simp]: "sent (saveMessageToFile m s) = sent s"
  by (simp add: saveMessageToFile_def)

lemma refused_saveMessageToFile [simp]: "refused (saveMessageToFile m s) = refused s"
  by (simp add: saveMessageToFile_def)

lemma saveMessageToFile_refused:
  "refused s (historyFile (Message.Room m)) \<Longrightarrow> saveMessageToFile m s = s"
  by (simp add: saveMessageToFile_def)

lemma logBytes_saveMessageToFile:
  "\<not> refused s (historyFile (Message.Room m)) \<Longrightarrow>
   logBytes (saveMessageToFile m s) room
     = (if room = Message.Room m then logBytes s room @ formatLine m else logBytes s room)"
  by (simp add: logBytes_def saveMessageToFile_def historyFile_def)

lemma fold_saveMessageToFile:
  "\<not> refused s (historyFile room) \<Longrightarrow> \<forall>m\<in>set ms. Message.Room m = room \<Longrightarrow>
   sent (fold saveMessageToFile ms s) = sent s
   \<and> logBytes (fold saveMessageToFile ms s) room
       = logBytes s room @ concat (map (\<lambda>m. recordLine m @ [LF]) ms)"
  by (induction ms arbitrary: s) (simp_all add: logBytes_saveMessageToFile formatLine_recordLine)

section \<open>Identities are never overwritten\<close>

lemma keeps_credentials_same_registries:
  "same_registries s s' \<Longrightarrow> keeps_credentials s s'"
  by (simp add: keeps_credentials_def same_registries_def)

lemma keeps_credentials_trans:
  assumes "keeps_credentials s s'" and "keeps_credentials s' s''"
  shows "keeps_credentials s s''"
  unfolding keeps_credentials_def
proof (intro allI impI)
  fix u a
  assume "users s u = Some a"
  with assms(1) have 1: "users s' u = Some a" "Password (heap s' ! a) = Password (heap s ! a)"
    by (simp_all add: keeps_credentials_def)
  with assms(2) have "users s'' u = Some a" "Password (heap s'' ! a) = Password (heap s' ! a)"
    by (simp_all add: keeps_credentials_def)
  with 1 show "users s'' u = Some a \<and> Password (heap s'' ! a) = Password (heap s ! a)"
    by simp
qed

lemma keeps_credentials_handleSignup:
  assumes "consistent s"
  shows "keeps_credentials s (handleSignup ws msg s)"
proof (cases "users s (Sender msg)")
  case (Some a)
  then show ?thesis by (simp add: handleSignup_def keeps_credentials_same_registries)
next
  case None
  have "users (handleSignup ws msg s) u = Some a
        \<and> Password (heap (handleSignup ws msg s) ! a) = Password (heap s ! a)"
    if "users s u = Some a" for u a
  proof -
    from that None have "u \<noteq> Sender msg" by auto
    moreover have "a < length (heap s)" by (rule consistent_users [OF assms that])
    ultimately show ?thesis
      using that None by (simp add: handleSignup_def WriteJSON_def nth_append)
  qed
  then show ?thesis by (simp add: keeps_credentials_def)
qed

lemma keeps_credentials_room_update:
  assumes "users s' = users s" and "heap s' = (heap s)[a := (heap s ! a)\<lparr>User.Room := r\<rparr>]"
  shows "keeps_credentials s s'"
proof -
  have "Password (((heap s)[a := (heap s ! a)\<lparr>User.Room := r\<rparr>]) ! b) = Password (heap s ! b)" for b
    by (cases "a < length (heap s)"; cases "a = b") (simp_all add: list_update_beyond)
  then show ?thesis by (simp add: keeps_credentials_def assms)
qed

lemma keeps_credentials_handleJoinRoom:
  "keeps_credentials s (state_of (handleJoinRoom ws msg s))"
proof (cases "rooms s (Content msg)")
  case None
  then show ?thesis by (simp add: handleJoinRoom_def keeps_credentials_same_registries)
next
  case (Some room)
  show ?thesis
  proof (cases "clients s ws")
    case None
    then show ?thesis using Some by (simp add: handleJoinRoom_def keeps_credentials_same_registries)
  next
    case a: (Some a)
    let ?m = "s\<lparr>heap := (heap s)[a := (heap s ! a)\<lparr>User.Room := Content msg\<rparr>],
                rooms := (rooms s)(Content msg \<mapsto> room @ [a])\<rparr>"
    have "same_registries ?m (WriteJSON ws (reply ''info'' ''Joined room successfully'')
                        (sendChatHistory ws (Content msg) ?m))"
      using same_registries_trans [OF same_registries_sendChatHistory same_registries_WriteJSON] .
    from keeps_credentials_trans [OF keeps_credentials_room_update [of ?m s a "Content msg"]
        keeps_credentials_same_registries [OF this]]
    show ?thesis by (simp add: handleJoinRoom_def Some a)
  qed
qed

lemma keeps_credentials_handleLeaveRoom:
  "keeps_credentials s (state_of (handleLeaveRoom ws msg s))"
proof (cases "clients s ws")
  case None
  then show ?thesis by (simp add: handleLeaveRoom_def keeps_credentials_same_registries)
next
  case a: (Some a)
  show ?thesis
  proof (cases "rooms s (User.Room (heap s ! a))")
    case None
    then show ?thesis by (simp add: handleLeaveRoom_def a keeps_credentials_same_registries)
  next
    case (Some room)
    let ?m = "s\<lparr>rooms := (rooms s)(User.Room (heap s ! a) \<mapsto>
                           removeMember (heap s) (Username (heap s ! a)) room),
                heap := (heap s)[a := (heap s ! a)\<lparr>User.Room := []\<rparr>]\<rparr>"
    from keeps_credentials_trans [OF keeps_credentials_room_update [of ?m s a "[]"]
        keeps_credentials_same_registries [OF same_registries_WriteJSON]]
    have "keeps_credentials s (WriteJSON ws (reply ''info'' ''Left room successfully'') ?m)"
      by simp
    then show ?thesis by (simp add: handleLeaveRoom_def Some a)
  qed
qed

lemma keeps_credentials_saveMessageToFile: "keeps_credentials s (saveMessageToFile m s)"
  by (simp add: keeps_credentials_def saveMessageToFile_def)

lemma keeps_credentials_handleChat:
  "keeps_credentials s (state_of (handleChat dead ws msg s))"
proof (cases "clients s ws")
  case None
  then show ?thesis by (simp add: handleChat_def keeps_credentials_same_registries)
next
  case (Some a)
  show ?thesis
  proof (cases "User.Room (heap s ! a) = []")
    case True
    then show ?thesis by (simp add: handleChat_def Some keeps_credentials_same_registries)
  next
    case False
    let ?msg = "msg\<lparr>Message.Room := User.Room (heap s ! a)\<rparr>"
    let ?f = "fanout dead ?msg (membersOf s (User.Room (heap s ! a))) s"
    have k: "keeps_credentials s (state_of ?f)"
      by (rule keeps_credentials_same_registries [OF same_registries_fanout])
    show ?thesis
    proof (cases ?f)
      case (Returned s')
      with k keeps_credentials_trans [OF _ keeps_credentials_saveMessageToFile, of s s' ?msg]
      show ?thesis by (simp add: handleChat_def Some False)
    next
      case (Panicked s')
      with k show ?thesis by (simp add: handleChat_def Some False)
    qed
  qed
qed

lemma keeps_credentials_handleMessages:
  "keeps_credentials s (state_of (handleMessages dead msg s))"
proof -
  let ?f = "fanoutAll dead msg (membersOf s (Message.Room msg)) s"
  have k: "keeps_credentials s (state_of ?f)"
    by (rule keeps_credentials_same_registries [OF same_registries_fanoutAll])
  show ?thesis
  proof (cases ?f)
    case (Returned s')
    with k keeps_credentials_trans [OF _ keeps_credentials_saveMessageToFile, of s s' msg]
    show ?thesis by (simp add: handleMessages_def)
  next
    case (Panicked s')
    with k show ?thesis by (simp add: handleMessages_def)
  qed
qed

lemma keeps_credentials_handleSignin: "keeps_credentials s (handleSignin ws msg s)"
  by (simp add: keeps_credentials_def handleSignin_def WriteJSON_def split: option.splits)

lemma keeps_credentials_handleSignout: "keeps_credentials s (handleSignout ws s)"
  by (simp add: keeps_credentials_def handleSignout_def WriteJSON_def)

lemma keeps_credentials_handleCreateRoom: "keeps_credentials s (handleCreateRoom ws msg s)"
  by (simp add: keeps_credentials_def handleCreateRoom_def WriteJSON_def split: option.splits)

lemma keeps_credentials_dispatch:
  "consistent s \<Longrightarrow> keeps_credentials s (state_of (dispatch dead ws msg s))"
  by (simp add: dispatch_def keeps_credentials_handleSignup keeps_credentials_handleJoinRoom
      keeps_credentials_handleLeaveRoom keeps_credentials_handleChat
      keeps_credentials_handleSignin keeps_credentials_handleSignout
      keeps_credentials_handleCreateRoom keeps_credentials_same_registries)

lemma keeps_credentials_step:
  assumes "consistent s"
  shows "keeps_credentials s (step dead e s)"
proof (cases e)
  case (Inbound ws msg)
  have "keeps_credentials s' (s'\<lparr>closed := ws # closed s'\<rparr>)" for s'
    by (simp add: keeps_credentials_def)
  from keeps_credentials_trans [OF keeps_credentials_dispatch [OF assms, of dead ws msg] this]
    keeps_credentials_dispatch [OF assms, of dead ws msg]
  show ?thesis by (cases "dispatch dead ws msg s") (simp_all add: Inbound)
next
  case (ReadError ws)
  then show ?thesis by (simp add: keeps_credentials_def)
next
  case (Console line)
  then show ?thesis
    using keeps_credentials_handleMessages [of s dead "consoleMessage line"]
    by (simp add: keeps_credentials_def)
qed

lemma keeps_credentials_run:
  "consistent s \<Longrightarrow> keeps_credentials s (run dead es s)"
proof (induction es arbitrary: s)
  case Nil
  show ?case by (simp add: keeps_credentials_def)
next
  case (Cons e es)
  from keeps_credentials_trans [OF keeps_credentials_step [OF Cons.prems]
      Cons.IH [OF consistent_step [OF Cons.prems]]]
  show ?case by simp
qed

section \<open>handleChat on the reachable states and on states with connections\<close>

text \<open>
  On the states the server reaches, \<open>handleChat\<close> leaves \<open>clients\<close> and \<open>closed\<close> as they
  were, whatever the transport does, and the only write it can make is the error event to
  a sender that is in no room: a member to deliver to holds no connection, and the loop
  panics there. \<open>routing_lobby3\<close> runs a broadcast and a dm on \<open>lobby3\<close>, where the members
  hold their connections.
\<close>

lemma chat_unbinds_nothing_when_reachable:
  assumes "reachable s"
  shows "clients (state_of (handleChat dead ws msg s)) = clients s
       \<and> closed (state_of (handleChat dead ws msg s)) = closed s
       \<and> (sent (state_of (handleChat dead ws msg s)) = sent s
            \<or> sent (state_of (handleChat dead ws msg s))
                 = sent s @ [(ws, reply ''error'' ''You are not in a room'')])"
proof (cases "clients s ws")
  case None
  then show ?thesis by (simp add: handleChat_def)
next
  case (Some a)
  show ?thesis
  proof (cases "User.Room (heap s ! a) = []")
    case True
    then show ?thesis by (simp add: handleChat_def Some WriteJSON_def)
  next
    case False
    let ?r = "User.Room (heap s ! a)"
    let ?msg = "msg\<lparr>Message.Room := ?r\<rparr>"
    from assms have ok: "consistent s" by (rule reachable_consistent)
    have nil: "\<forall>u\<in>set (membersOf s ?r). Conn (heap s ! u) = None"
    proof
      fix u assume u: "u \<in> set (membersOf s ?r)"
      then obtain us where "rooms s ?r = Some us" "u \<in> set us"
        by (cases "rooms s ?r") (auto simp: membersOf_def)
      then have "u < length (heap s)" by (rule consistent_rooms [OF ok])
      then show "Conn (heap s ! u) = None" by (rule consistent_conn [OF ok])
    qed
    from fanout_nil_conns [OF nil, of dead ?msg]
    have "fanout dead ?msg (membersOf s ?r) s = Returned s
          \<or> fanout dead ?msg (membersOf s ?r) s = Panicked s"
      by (simp split: if_splits)
    then show ?thesis
      by (auto simp: handleChat_in_room [OF Some refl False] saveMessageToFile_def)
  qed
qed

lemma routing_lobby3:
  "sent (state_of (handleChat quiet 1 (message ''broadcast'' ''alice'' [] ''hi'') lobby3))
     = [(1, (message ''broadcast'' ''alice'' [] ''hi'')\<lparr>Message.Room := ''lobby''\<rparr>),
        (2, (message ''broadcast'' ''alice'' [] ''hi'')\<lparr>Message.Room := ''lobby''\<rparr>),
        (3, (message ''broadcast'' ''alice'' [] ''hi'')\<lparr>Message.Room := ''lobby''\<rparr>)]
   \<and> sent (state_of (handleChat quiet 1 (message ''dm'' ''alice'' ''bob'' ''hi'') lobby3))
     = [(1, (message ''dm'' ''alice'' ''bob'' ''hi'')\<lparr>Message.Room := ''lobby''\<rparr>),
        (2, (message ''dm'' ''alice'' ''bob'' ''hi'')\<lparr>Message.Room := ''lobby''\<rparr>)]"
  by (simp add: lobby3_def handler_defs fanout.simps quiet_def)

section \<open>Claims\<close>

subsection \<open>C1: who receives a broadcast and a dm\<close>

text \<open>
  C1. The claim is that a broadcast from a member reaches every member of the room and a
  dm from A to B reaches A and B only. On the states the server reaches it does not hold:
  no handler ever stores a connection in a \<open>User\<close>, so the first push of the fanout
  dereferences a nil \<open>Conn\<close>. In every reachable state, a chat event from a bound session
  that is in a room, being a broadcast or a dm that declares the session's own name as
  sender, panics before anything is written: nobody receives the event and the history log
  is not appended. (\<open>fanout_effect\<close> shows that the loop itself pushes to exactly the
  delivery set once every selected member holds a connection, and \<open>routing_lobby3\<close>
  runs the claim's two events on such a state.)
\<close>

theorem chat_panics_on_nil_conn:
  assumes "reachable s" and "clients s ws = Some a" and "User.Room (heap s ! a) \<noteq> []"
    and "Type msg \<noteq> ''dm'' \<or> Sender msg = Username (heap s ! a)"
  shows "handleChat dead ws msg s = Panicked s"
proof -
  let ?r = "User.Room (heap s ! a)"
  let ?msg = "msg\<lparr>Message.Room := ?r\<rparr>"
  from assms(1) have ok: "consistent s" by (rule reachable_consistent)
  have lt: "a < length (heap s)" by (rule consistent_clients [OF ok assms(2)])
  have mem: "a \<in> set (membersOf s ?r)" by (rule consistent_member [OF ok lt assms(3)])
  have sel: "selected ?msg (heap s ! a)" using assms(4) by (auto simp: selected_def)
  from mem sel have ne: "deliverySet ?msg (heap s) (membersOf s ?r) \<noteq> []"
    by (auto simp: deliverySet_def filter_empty_conv)
  have nil: "\<forall>u\<in>set (membersOf s ?r). Conn (heap s ! u) = None"
  proof
    fix u assume u: "u \<in> set (membersOf s ?r)"
    then obtain us where "rooms s ?r = Some us" "u \<in> set us"
      by (cases "rooms s ?r") (auto simp: membersOf_def)
    then have "u < length (heap s)" by (rule consistent_rooms [OF ok])
    then show "Conn (heap s ! u) = None" by (rule consistent_conn [OF ok])
  qed
  from fanout_nil_conns [OF nil, of dead ?msg] ne
  have "fanout dead ?msg (membersOf s ?r) s = Panicked s" by simp
  then show ?thesis using assms(2,3) by (simp add: handleChat_def)
qed

theorem chat_panics_on_nil_conn_witness:
  "rooms lobbyABC ''lobby'' = Some [0, 1, 2]
   \<and> handleChat quiet 1 (message ''broadcast'' ''alice'' [] ''hi'') lobbyABC = Panicked lobbyABC
   \<and> handleChat quiet 1 (message ''dm'' ''alice'' ''bob'' ''hi'') lobbyABC = Panicked lobbyABC"
proof -
  have r: "reachable lobbyABC"
    unfolding lobbyABC_def by (rule reachable_run [OF reachable_init])
  have b: "handleChat quiet 1 (message ''broadcast'' ''alice'' [] ''hi'') lobbyABC = Panicked lobbyABC"
    by (rule chat_panics_on_nil_conn [OF r lobbyABC_facts(1)])
       (simp_all add: lobbyABC_facts(2) message_def)
  have u: "Username (heap lobbyABC ! 0) = ''alice''"
    by (simp add: lobbyABC_def handler_defs)
  have d: "handleChat quiet 1 (message ''dm'' ''alice'' ''bob'' ''hi'') lobbyABC = Panicked lobbyABC"
    by (rule chat_panics_on_nil_conn [OF r lobbyABC_facts(1)])
       (simp_all add: lobbyABC_facts(2) message_def u)
  from b d lobbyABC_facts(3) show ?thesis by simp
qed

subsection \<open>C2: the connection a session holds\<close>

text \<open>
  C2. The claim is that every connection \<open>ws\<close> in \<open>clients\<close> maps to a \<open>User\<close> whose
  \<open>Conn\<close> is \<open>ws\<close>. \<open>handleSignin\<close> stores the \<open>User\<close> under \<open>ws\<close> and never writes its
  \<open>Conn\<close> field, and no other code writes it: in every reachable state the \<open>User\<close> bound to
  a connection holds no connection at all.
\<close>

theorem signin_leaves_conn_nil:
  assumes "reachable s" and "clients s ws = Some a"
  shows "Conn (heap s ! a) = None"
proof -
  from assms(1) have ok: "consistent s" by (rule reachable_consistent)
  from consistent_clients [OF ok assms(2)] show ?thesis by (rule consistent_conn [OF ok])
qed

theorem signin_leaves_conn_nil_witness:
  "clients signedIn 1 = Some 0 \<and> Conn (heap signedIn ! 0) = None"
proof -
  have r: "reachable signedIn"
    unfolding signedIn_def by (rule reachable_run [OF reachable_init])
  have c: "clients signedIn 1 = Some 0"
    by (simp add: signedIn_def handler_defs)
  from signin_leaves_conn_nil [OF r c] c show ?thesis by simp
qed

subsection \<open>C3: the rooms a session is a member of\<close>

text \<open>
  C3, as amended. In every reachable state a \<open>User\<close> whose \<open>Room\<close> is not empty is in the
  member list of the room its \<open>Room\<close> names (so that room exists). A join does not take
  the session out of any room: when a bound session joins an existing room, the handler
  returns, the session's \<open>Room\<close> is the room joined, the session is appended to that
  room's members, and the member list of every other room is what it was.
\<close>

theorem session_is_member_of_current_room:
  assumes "reachable s"
  shows "(\<forall>a<length (heap s). User.Room (heap s ! a) \<noteq> [] \<longrightarrow>
            a \<in> set (membersOf s (User.Room (heap s ! a))))
       \<and> (\<forall>ws a msg room. clients s ws = Some a \<and> rooms s (Content msg) = Some room \<longrightarrow>
            handleJoinRoom ws msg s = Returned (state_of (handleJoinRoom ws msg s))
            \<and> User.Room (heap (state_of (handleJoinRoom ws msg s)) ! a) = Content msg
            \<and> rooms (state_of (handleJoinRoom ws msg s)) (Content msg) = Some (room @ [a])
            \<and> (\<forall>r. r \<noteq> Content msg \<longrightarrow> rooms (state_of (handleJoinRoom ws msg s)) r = rooms s r))"
proof (intro conjI allI impI)
  from assms have ok: "consistent s" by (rule reachable_consistent)
  {
    fix a assume "a < length (heap s)" "User.Room (heap s ! a) \<noteq> []"
    then show "a \<in> set (membersOf s (User.Room (heap s ! a)))"
      by (rule consistent_member [OF ok])
  }
  fix ws a room and msg :: Message
  assume h: "clients s ws = Some a \<and> rooms s (Content msg) = Some room"
  then have c: "clients s ws = Some a" and r: "rooms s (Content msg) = Some room" by simp_all
  have lt: "a < length (heap s)" by (rule consistent_clients [OF ok c])
  let ?m = "s\<lparr>heap := (heap s)[a := (heap s ! a)\<lparr>User.Room := Content msg\<rparr>],
              rooms := (rooms s)(Content msg \<mapsto> room @ [a])\<rparr>"
  have j: "handleJoinRoom ws msg s
             = Returned (WriteJSON ws (reply ''info'' ''Joined room successfully'')
                 (sendChatHistory ws (Content msg) ?m))"
    using c r by (simp add: handleJoinRoom_def)
  have sr: "same_registries ?m (WriteJSON ws (reply ''info'' ''Joined room successfully'')
                        (sendChatHistory ws (Content msg) ?m))"
    using same_registries_trans [OF same_registries_sendChatHistory same_registries_WriteJSON] .
  then have e: "heap (state_of (handleJoinRoom ws msg s)) = heap ?m"
    "rooms (state_of (handleJoinRoom ws msg s)) = rooms ?m"
    by (simp_all add: j same_registries_def)
  show "handleJoinRoom ws msg s = Returned (state_of (handleJoinRoom ws msg s))"
    by (simp add: j)
  show "User.Room (heap (state_of (handleJoinRoom ws msg s)) ! a) = Content msg"
    using lt by (simp add: e)
  show "rooms (state_of (handleJoinRoom ws msg s)) (Content msg) = Some (room @ [a])"
    by (simp add: e)
  show "rooms (state_of (handleJoinRoom ws msg s)) r = rooms s r" if "r \<noteq> Content msg" for r
    using that by (simp add: e)
qed

lemma twoRooms_facts:
  "clients twoRooms 1 = Some 0" "rooms twoRooms ''a'' = Some [0]" "rooms twoRooms ''b'' = Some [0]"
  "User.Room (heap twoRooms ! 0) = ''b''" "length (heap twoRooms) = 1"
  by (simp_all add: twoRooms_def handler_defs)

lemma reachable_twoRooms: "reachable twoRooms"
  unfolding twoRooms_def by (rule reachable_run [OF reachable_init])

theorem session_is_member_of_current_room_witness:
  "User.Room (heap twoRooms ! 0) = ''b'' \<and> 0 \<in> set (membersOf twoRooms ''b'')"
  using session_is_member_of_current_room [OF reachable_twoRooms] twoRooms_facts
  by auto

text \<open>
  The claim as stated fails: after joining \<open>a\<close> and then \<open>b\<close>, alice is a member of both
  rooms while her \<open>Room\<close> is \<open>b\<close>.
\<close>

theorem member_of_two_rooms:
  "reachable twoRooms \<and> clients twoRooms 1 = Some 0
   \<and> rooms twoRooms ''a'' = Some [0] \<and> rooms twoRooms ''b'' = Some [0]
   \<and> User.Room (heap twoRooms ! 0) = ''b''"
  using reachable_twoRooms twoRooms_facts by simp

subsection \<open>C4: leave_room outside any room\<close>

text \<open>
  C4. The claim is that \<open>leave_room\<close> from a bound session that is in no room answers
  \<open>You are not in a room\<close> and changes nothing. \<open>handleLeaveRoom\<close> decides it by looking
  the session's \<open>Room\<close> up in \<open>rooms\<close>, and "no room" is the empty string: once a room with
  the empty name exists (\<open>create_room\<close> accepts it) the lookup succeeds, the handler
  answers \<open>Left room successfully\<close> and removes the session from that room's members.
  \<open>leave_not_in_room\<close> is the claim where no room has the empty name.
\<close>

theorem leave_with_empty_named_room:
  assumes "clients s ws = Some a" and "User.Room (heap s ! a) = []" and "rooms s [] = Some room"
  shows "handleLeaveRoom ws msg s
           = Returned (WriteJSON ws (reply ''info'' ''Left room successfully'')
               (s\<lparr>rooms := (rooms s)([] \<mapsto> removeMember (heap s) (Username (heap s ! a)) room),
                  heap := (heap s)[a := (heap s ! a)\<lparr>User.Room := []\<rparr>]\<rparr>))"
  using assms by (simp add: handleLeaveRoom_def)

theorem leave_with_empty_named_room_witness:
  "clients emptyNamed 1 = Some 0 \<and> User.Room (heap emptyNamed ! 0) = []
   \<and> rooms emptyNamed [] = Some [0]
   \<and> sent (state_of (handleLeaveRoom 1 (message ''leave_room'' ''alice'' [] []) emptyNamed))
       = sent emptyNamed @ [(1, reply ''info'' ''Left room successfully'')]
   \<and> rooms (state_of (handleLeaveRoom 1 (message ''leave_room'' ''alice'' [] []) emptyNamed)) []
       = Some []"
proof -
  have f: "clients emptyNamed 1 = Some 0" "User.Room (heap emptyNamed ! 0) = []"
    "rooms emptyNamed [] = Some [0]" "Username (heap emptyNamed ! 0) = ''alice''"
    by (simp_all add: emptyNamed_def handler_defs)
  from leave_with_empty_named_room [OF f(1,2,3), of "message ''leave_room'' ''alice'' [] []"] f
  show ?thesis by (simp add: WriteJSON_def)
qed

subsection \<open>C5: the history a join replays\<close>

text \<open>
  C5, as amended. Let a bound session join an existing room whose log is made of the lines
  \<open>ls\<close>, each ended by a line feed, each shorter than \<open>MaxScanTokenSize\<close> (65536 bytes)
  and none ending in a carriage return. Then \<open>handleJoinRoom\<close> returns, and what it writes
  is, on the joining connection only, one history event per line of \<open>ls\<close> in the order of
  the log, followed by the info event of the successful join.
\<close>

theorem join_replays_history:
  assumes "rooms s (Content msg) = Some room" and "clients s ws = Some a"
    and "logBytes s (Content msg) = concat (map (\<lambda>l. l @ [LF]) ls)"
    and "\<forall>l\<in>set ls. LF \<notin> set l \<and> length l < MaxScanTokenSize \<and> (l = [] \<or> last l \<noteq> CR)"
  shows "handleJoinRoom ws msg s = Returned (state_of (handleJoinRoom ws msg s))
       \<and> sent (state_of (handleJoinRoom ws msg s))
           = sent s @ map (\<lambda>l. (ws, reply ''history'' l)) ls
               @ [(ws, reply ''info'' ''Joined room successfully'')]"
  using handleJoinRoom_sent [OF assms(1,2)] scanLines_lines [OF assms(4)] assms(3) by simp

lemma chatted_facts:
  "rooms chatted ''lobby'' = Some [0]" "clients chatted 2 = Some 1"
  "logBytes chatted ''lobby'' = concat (map (\<lambda>l. l @ [LF]) [''[lobby] x: hi'', ''[lobby] x: bye''])"
  by (simp_all add: chatted_def handler_defs fanout.simps logBytes_def formatLine_def historyFile_def)

theorem join_replays_history_witness:
  "sent (state_of (handleJoinRoom 2 (message ''join_room'' ''bob'' [] ''lobby'') chatted))
     = sent chatted @ [(2, reply ''history'' ''[lobby] x: hi''),
                       (2, reply ''history'' ''[lobby] x: bye''),
                       (2, reply ''info'' ''Joined room successfully'')]"
proof -
  have g: "\<forall>l\<in>set [''[lobby] x: hi'', ''[lobby] x: bye''].
             LF \<notin> set l \<and> length l < MaxScanTokenSize \<and> (l = [] \<or> last l \<noteq> CR)"
    by (simp add: LF_def CR_def MaxScanTokenSize_def)
  from join_replays_history [where msg = "message ''join_room'' ''bob'' [] ''lobby''" and s = chatted
      and ws = 2 and ls = "[''[lobby] x: hi'', ''[lobby] x: bye'']" and room = "[0]" and a = 1]
    chatted_facts g
  show ?thesis by (simp add: message_def)
qed

text \<open>
  The claim as stated fails on a longer line. In \<open>longLog\<close> the log of \<open>lobby\<close> is one line
  of 70011 bytes, written by a dm of alice; when bob joins, the reader stops with
  \<open>ErrTooLong\<close> and the join sends no history event at all.
\<close>

lemma longText_facts: "LF \<notin> set longText" "length longText = 70000"
  by (simp_all add: longText_def LF_def)

lemma longLog_facts:
  "rooms longLog ''lobby'' = Some [0]" "clients longLog 2 = Some 1"
  "logBytes longLog ''lobby'' = ''[lobby] x: '' @ longText @ [LF]"
proof -
  show "rooms longLog ''lobby'' = Some [0]"
    by (simp add: longLog_def handler_defs fanout.simps)
  show "clients longLog 2 = Some 1"
    by (simp add: longLog_def handler_defs fanout.simps)
  show "logBytes longLog ''lobby'' = ''[lobby] x: '' @ longText @ [LF]"
    by (simp add: longLog_def handler_defs fanout.simps logBytes_def formatLine_def historyFile_def)
qed

theorem long_line_stops_replay:
  "reachable longLog
   \<and> logBytes longLog ''lobby'' = (''[lobby] x: '' @ longText) @ [LF]
   \<and> LF \<notin> set (''[lobby] x: '' @ longText)
   \<and> sent (state_of (handleJoinRoom 2 (message ''join_room'' ''bob'' [] ''lobby'') longLog))
       = sent longLog @ [(2, reply ''info'' ''Joined room successfully'')]"
proof -
  have r: "reachable longLog"
    unfolding longLog_def by (rule reachable_run [OF reachable_init])
  have n: "LF \<notin> set (''[lobby] x: '' @ longText)"
    using longText_facts(1) by (simp add: LF_def)
  have "MaxScanTokenSize \<le> length (''[lobby] x: '' @ longText)"
    by (simp add: longText_facts(2) MaxScanTokenSize_def)
  from scanLines_too_long [OF n this, of "[LF]"]
  have "scanLines (logBytes longLog ''lobby'') = []"
    by (simp add: longLog_facts(3))
  with handleJoinRoom_sent [of longLog "message ''join_room'' ''bob'' [] ''lobby''" "[0]" 2 1]
    longLog_facts r n
  show ?thesis by (simp add: message_def)
qed

subsection \<open>C6: events from a connection that never signed in\<close>

text \<open>
  C6. The claim is that an event other than signup and signin from a connection with no
  bound session is answered with an error event. For such a connection \<open>clients[ws]\<close> is
  nil and \<open>handleLeaveRoom\<close>, \<open>handleChat\<close> and (for a room that exists) \<open>handleJoinRoom\<close>
  dereference it: the handler panics in the state it started in, and the connection loop
  ends without a single write.
\<close>

theorem unbound_connection_panics:
  assumes "clients s ws = None"
  shows "handleLeaveRoom ws msg s = Panicked s
       \<and> handleChat dead ws msg s = Panicked s
       \<and> (rooms s (Content msg) \<noteq> None \<longrightarrow> handleJoinRoom ws msg s = Panicked s)
       \<and> (Type msg = ''leave_room'' \<or> Type msg = ''broadcast'' \<or> Type msg = ''dm''
            \<longrightarrow> sent (step dead (Inbound ws msg) s) = sent s)"
  using assms by (auto simp: handleLeaveRoom_def handleChat_def handleJoinRoom_def dispatch_def)

theorem unbound_connection_panics_witness:
  "clients init 7 = None
   \<and> handleLeaveRoom 7 (message ''leave_room'' [] [] []) init = Panicked init
   \<and> handleChat quiet 7 (message ''broadcast'' ''eve'' [] ''hi'') init = Panicked init
   \<and> sent (step quiet (Inbound 7 (message ''broadcast'' ''eve'' [] ''hi'')) init) = []"
  using unbound_connection_panics [of init 7 "message ''leave_room'' [] [] []" quiet]
    unbound_connection_panics [of init 7 "message ''broadcast'' ''eve'' [] ''hi''" quiet]
  by (simp add: init_def message_def)

subsection \<open>C7: a push that fails during the fanout\<close>



subsection \<open>C8: appending records and replaying them\<close>

text \<open>
  C8, as amended. Start from a room whose log is absent or empty and whose log file the
  file system opens for append, and append the chat records \<open>ms\<close> of that room in order,
  where the line of each record holds no line feed, is shorter than \<open>MaxScanTokenSize\<close>
  (65536 bytes) and does not end in a carriage return. Replaying the room then sends
  exactly one history event per record, in the order of the appends, carrying the
  record's line \<open>[room] sender: content\<close>. (When the open fails, \<open>saveMessageToFile\<close>
  writes nothing: \<open>saveMessageToFile_refused\<close>.)
\<close>

theorem history_round_trip:
  assumes "logBytes s room = []" and "\<not> refused s (historyFile room)"
    and "\<forall>m\<in>set ms. Message.Room m = room \<and> LF \<notin> set (recordLine m)
           \<and> length (recordLine m) < MaxScanTokenSize \<and> last (recordLine m) \<noteq> CR"
  shows "sent (sendChatHistory ws room (fold saveMessageToFile ms s))
           = sent s @ map (\<lambda>m. (ws, reply ''history'' (recordLine m))) ms"
proof -
  from assms(3) have r: "\<forall>m\<in>set ms. Message.Room m = room" by simp
  from assms(3) have "\<forall>l\<in>set (map recordLine ms).
      LF \<notin> set l \<and> length l < MaxScanTokenSize \<and> (l = [] \<or> last l \<noteq> CR)"
    by simp
  from scanLines_lines [OF this]
  have "scanLines (concat (map (\<lambda>m. recordLine m @ [LF]) ms)) = map recordLine ms"
    by (simp add: comp_def)
  then show ?thesis
    using fold_saveMessageToFile [OF assms(2) r] assms(1)
    by (simp add: sendChatHistory_logBytes sent_sendLines comp_def)
qed

theorem history_round_trip_witness:
  "sent (sendChatHistory 5 ''lobby'' (fold saveMessageToFile [hello, bye] init))
     = [(5, reply ''history'' ''[lobby] alice: hello''), (5, reply ''history'' ''[lobby] bob: bye'')]"
proof -
  have a: "logBytes init ''lobby'' = []" by (simp add: logBytes_def init_def)
  have o: "\<not> refused init (historyFile ''lobby'')" by (simp add: init_def)
  have b: "\<forall>m\<in>set [hello, bye]. Message.Room m = ''lobby'' \<and> LF \<notin> set (recordLine m)
           \<and> length (recordLine m) < MaxScanTokenSize \<and> last (recordLine m) \<noteq> CR"
    by (simp add: hello_def bye_def recordLine_def LF_def CR_def MaxScanTokenSize_def)
  from history_round_trip [OF a o b, of 5] show ?thesis
    by (simp add: recordLine_def hello_def bye_def init_def)
qed

text \<open>
  The claim as stated fails for a record whose content holds a line feed: the one record
  \<open>twoLines\<close> is replayed as two history events.
\<close>

theorem line_feed_splits_record:
  "sent (sendChatHistory 5 ''lobby'' (fold saveMessageToFile [twoLines] init))
     = [(5, reply ''history'' ''[lobby] alice: a''), (5, reply ''history'' ''b'')]"
proof -
  have o: "\<not> refused init (historyFile (Message.Room twoLines))" by (simp add: init_def)
  have e: "logBytes init ''lobby'' = []" by (simp add: logBytes_def init_def)
  have L: "logBytes (fold saveMessageToFile [twoLines] init) ''lobby''
          = ''[lobby] alice: a'' @ LF # (''b'' @ LF # [])"
    using logBytes_saveMessageToFile [OF o, of "''lobby''"] e
    by (simp add: twoLines_def formatLine_def)
  have 1: "scanLines (''[lobby] alice: a'' @ LF # (''b'' @ LF # []))
             = dropCR ''[lobby] alice: a'' # scanLines (''b'' @ LF # [])"
    by (rule scanLines_line) (simp_all add: LF_def MaxScanTokenSize_def)
  have 2: "scanLines (''b'' @ LF # []) = dropCR ''b'' # scanLines []"
    by (rule scanLines_line) (simp_all add: LF_def MaxScanTokenSize_def)
  have S: "scanLines (''[lobby] alice: a'' @ LF # (''b'' @ LF # [])) = [''[lobby] alice: a'', ''b'']"
    unfolding 1 2 by (simp add: dropCR_def CR_def)
  show ?thesis
    unfolding sendChatHistory_logBytes L S by (simp add: WriteJSON_def init_def)
qed

subsection \<open>C9: signing up a name twice\<close>

text \<open>
  C9. In a reachable state where the name is free, a signup succeeds; after it and after
  any further events \<open>es\<close>, a second signup of the same name, with any credential and from
  any connection, only writes the error event \<open>Username already exists\<close>: the state is
  otherwise unchanged, and the identity store still maps the name to the \<open>User\<close> created
  by the first signup, whose password is the first credential.
\<close>

theorem signup_twice_duplicate:
  assumes "reachable s" and "users s (Sender m1) = None" and "Sender m2 = Sender m1"
  shows "sent (handleSignup ws1 m1 s) = sent s @ [(ws1, reply ''info'' ''Signup successful'')]
       \<and> handleSignup ws2 m2 (run dead es (handleSignup ws1 m1 s))
           = WriteJSON ws2 (reply ''error'' ''Username already exists'')
               (run dead es (handleSignup ws1 m1 s))
       \<and> users (handleSignup ws2 m2 (run dead es (handleSignup ws1 m1 s))) (Sender m1)
           = Some (length (heap s))
       \<and> Password (heap (handleSignup ws2 m2 (run dead es (handleSignup ws1 m1 s))) ! length (heap s))
           = Content m1"
proof -
  let ?s1 = "handleSignup ws1 m1 s"
  let ?s2 = "run dead es ?s1"
  from assms(1) have "consistent s" by (rule reachable_consistent)
  then have ok: "consistent ?s1" by (rule consistent_handleSignup)
  have u: "users ?s1 (Sender m1) = Some (length (heap s))"
    and p: "Password (heap ?s1 ! length (heap s)) = Content m1"
    using assms(2) by (simp_all add: handleSignup_def WriteJSON_def)
  from keeps_credentials_run [OF ok, of dead es] u p
  have u2: "users ?s2 (Sender m1) = Some (length (heap s))"
    and p2: "Password (heap ?s2 ! length (heap s)) = Content m1"
    by (simp_all add: keeps_credentials_def)
  have d: "handleSignup ws2 m2 ?s2 = WriteJSON ws2 (reply ''error'' ''Username already exists'') ?s2"
    using u2 assms(3) by (simp add: handleSignup_def)
  have "sent ?s1 = sent s @ [(ws1, reply ''info'' ''Signup successful'')]"
    using assms(2) by (simp add: handleSignup_def WriteJSON_def)
  then show ?thesis using u2 p2 by (simp add: d WriteJSON_def)
qed

theorem signup_twice_duplicate_witness:
  "handleSignup 2 (message ''signup'' ''alice'' [] ''pw2'')
     (run quiet between (handleSignup 1 (message ''signup'' ''alice'' [] ''pw1'') init))
     = WriteJSON 2 (reply ''error'' ''Username already exists'')
         (run quiet between (handleSignup 1 (message ''signup'' ''alice'' [] ''pw1'') init))
   \<and> users (handleSignup 2 (message ''signup'' ''alice'' [] ''pw2'')
        (run quiet between (handleSignup 1 (message ''signup'' ''alice'' [] ''pw1'') init))) ''alice''
       = Some 0
   \<and> Password (heap (handleSignup 2 (message ''signup'' ''alice'' [] ''pw2'')
        (run quiet between (handleSignup 1 (message ''signup'' ''alice'' [] ''pw1'') init))) ! 0)
       = ''pw1''"
proof -
  have a: "users init (Sender (message ''signup'' ''alice'' [] ''pw1'')) = None"
    by (simp add: init_def)
  have b: "Sender (message ''signup'' ''alice'' [] ''pw2'') = Sender (message ''signup'' ''alice'' [] ''pw1'')"
    by (simp add: message_def)
  from signup_twice_duplicate [OF reachable_init a b, of 1 2 quiet between]
  show ?thesis by (simp add: between_def handler_defs)
qed

subsection \<open>C10: a dm is routed by the declared sender\<close>

text \<open>
  C10. For two bound sessions in the same room, \<open>handleChat\<close> on the same event gives the
  same result whichever of the two sends it: the connection only selects the room. When
  the members of the delivery set hold connections, the writes are one push to each
  member of \<open>deliverySet\<close>, which compares the members' names with the event's \<open>Target\<close>
  and \<open>Sender\<close> fields and with nothing else. In the witness carol sends a dm that
  declares alice as its sender: in the reachable state \<open>lobbyABC\<close> the result is the one
  of alice sending it, and in \<open>lobby3\<close> it goes to alice and bob, and not to carol.
\<close>

theorem dm_delivery_ignores_bound_identity:
  assumes "clients s ws1 = Some a1" and "clients s ws2 = Some a2"
    and "User.Room (heap s ! a1) = r" and "User.Room (heap s ! a2) = r" and "r \<noteq> []"
  shows "handleChat dead ws1 msg s = handleChat dead ws2 msg s
       \<and> ((\<forall>u\<in>set (deliverySet (msg\<lparr>Message.Room := r\<rparr>) (heap s) (membersOf s r)).
              Conn (heap s ! u) \<noteq> None) \<longrightarrow>
            sent (state_of (handleChat dead ws1 msg s))
              = sent s @ pushes (msg\<lparr>Message.Room := r\<rparr>) (heap s) (membersOf s r))"
proof (intro conjI impI)
  show "handleChat dead ws1 msg s = handleChat dead ws2 msg s"
    by (simp only: handleChat_in_room [OF assms(1,3,5)] handleChat_in_room [OF assms(2,4,5)])
next
  assume c: "\<forall>u\<in>set (deliverySet (msg\<lparr>Message.Room := r\<rparr>) (heap s) (membersOf s r)).
              Conn (heap s ! u) \<noteq> None"
  from fanout_effect [OF c, of dead] handleChat_fanout [OF assms(1,3,5) c, of dead]
  show "sent (state_of (handleChat dead ws1 msg s))
          = sent s @ pushes (msg\<lparr>Message.Room := r\<rparr>) (heap s) (membersOf s r)"
    by (simp add: saveMessageToFile_def)
qed

lemma lobbyABC_carol: "clients lobbyABC 3 = Some 2" "User.Room (heap lobbyABC ! 2) = ''lobby''"
  by (simp_all add: lobbyABC_def handler_defs)

theorem dm_delivery_ignores_bound_identity_witness:
  "handleChat quiet 3 (message ''dm'' ''alice'' ''bob'' ''psst'') lobbyABC
     = handleChat quiet 1 (message ''dm'' ''alice'' ''bob'' ''psst'') lobbyABC
   \<and> handleChat quiet 3 (message ''dm'' ''alice'' ''bob'' ''psst'') lobby3
     = handleChat quiet 1 (message ''dm'' ''alice'' ''bob'' ''psst'') lobby3
   \<and> sent (state_of (handleChat quiet 3 (message ''dm'' ''alice'' ''bob'' ''psst'') lobby3))
       = [(1, (message ''dm'' ''alice'' ''bob'' ''psst'')\<lparr>Message.Room := ''lobby''\<rparr>),
          (2, (message ''dm'' ''alice'' ''bob'' ''psst'')\<lparr>Message.Room := ''lobby''\<rparr>)]"
proof -
  let ?m = "message ''dm'' ''alice'' ''bob'' ''psst''"
  let ?M = "?m\<lparr>Message.Room := ''lobby''\<rparr>"
  have d: "deliverySet ?M (heap lobby3) (membersOf lobby3 ''lobby'') = [0, 1]"
    by (simp add: deliverySet_def selected_def message_def lobby3_def membersOf_def)
  have conns: "\<forall>u\<in>set (deliverySet ?M (heap lobby3) (membersOf lobby3 ''lobby'')).
                 Conn (heap lobby3 ! u) \<noteq> None"
    unfolding d by (simp add: lobby3_def)
  have p: "pushes ?M (heap lobby3) (membersOf lobby3 ''lobby'') = [(1, ?M), (2, ?M)]"
    unfolding pushes_def d by (simp add: lobby3_def)
  note t = dm_delivery_ignores_bound_identity [OF lobby3_facts(2,1,4,3), where msg = ?m and dead = quiet]
  note r = dm_delivery_ignores_bound_identity [OF lobbyABC_carol(1) lobbyABC_facts(1)
      lobbyABC_carol(2) lobbyABC_facts(2), where msg = ?m and dead = quiet]
  from r have eq0: "handleChat quiet 3 ?m lobbyABC = handleChat quiet 1 ?m lobbyABC" by simp
  from t have eq: "handleChat quiet 3 ?m lobby3 = handleChat quiet 1 ?m lobby3" by simp
  from t conns have "sent (state_of (handleChat quiet 3 ?m lobby3))
                       = sent lobby3 @ pushes ?M (heap lobby3) (membersOf lobby3 ''lobby'')"
    by blast
  with eq0 eq p show ?thesis by (simp add: lobby3_facts(12))
qed

end
